theory Spec2Isabelle
  imports Main "HOL-Library.Word"
begin

unbundle bit_operations_syntax

section \<open>Machine types\<close>

text \<open>
  The firmware runs on an 8-bit AVR microcontroller (it uses \<open>PIND\<close> and a 1024-byte
  internal EEPROM): \<open>byte\<close> is 8 bits, \<open>int\<close> and \<open>unsigned int\<close> are 16 bits.
  A \<open>byte *\<close> argument is modelled as the memory seen through the pointer, a function
  from the index to the byte stored there. Everything written to the serial port is
  collected in a string; \<open>println\<close> ends a line with CR LF.
\<close>

type_synonym byte = "8 word"
type_synonym int16 = "16 word"
type_synonym uint16 = "16 word"
type_synonym serial = string

definition CRLF :: string where
  "CRLF = [CHR 0x0D, CHR 0x0A]"

definition println :: "string \<Rightarrow> string" where
  "println s = s @ CRLF"

definition exec :: "('s \<Rightarrow> 's) list \<Rightarrow> 's \<Rightarrow> 's" where
  "exec fs s = fold (\<lambda>f. f) fs s"

section \<open>The target: bus, control lines, clock\<close>

text \<open>
  Modelled from the spec: the target computer itself is hardware, not code. Its RAM has
  16 bytes, addressed by a 4-bit memory address register that takes the low four bus
  lines. On a rising clock edge the register latches the bus while MI (memory address
  in) is high, and the addressed cell stores the bus while RI (RAM in) is high; while
  RO (RAM out) is high and the programmer's data pins are inputs, the addressed cell
  drives the bus. The programmer's side is its eight data pins (direction and output
  value) and the three control lines. A wait returns at once when the clock already
  has the level waited for.
\<close>

record target =
  ram :: "4 word \<Rightarrow> byte"
  mar :: "4 word"
  clk :: bool
  bus :: byte
  bus_output :: bool
  mi :: bool
  ri :: bool
  ro :: bool

definition bus_level :: "target \<Rightarrow> byte" where
  "bus_level s = (if bus_output s then bus s else if ro s then ram s (mar s) else 0)"

definition clock_rise :: "target \<Rightarrow> target" where
  "clock_rise s =
     s\<lparr>ram := (if ri s then (ram s)(mar s := bus_level s) else ram s),
       mar := (if mi s then ucast (bus_level s) else mar s),
       clk := True\<rparr>"

definition wait_clock_high :: "target \<Rightarrow> target" where
  "wait_clock_high s = (if clk s then s else clock_rise s)"

definition wait_clock_low :: "target \<Rightarrow> target" where
  "wait_clock_low s = s\<lparr>clk := False\<rparr>"

definition SET_RO_HIGH :: "target \<Rightarrow> target" where "SET_RO_HIGH s = s\<lparr>ro := True\<rparr>"
definition SET_RO_LOW :: "target \<Rightarrow> target" where "SET_RO_LOW s = s\<lparr>ro := False\<rparr>"
definition SET_RI_HIGH :: "target \<Rightarrow> target" where "SET_RI_HIGH s = s\<lparr>ri := True\<rparr>"
definition SET_RI_LOW :: "target \<Rightarrow> target" where "SET_RI_LOW s = s\<lparr>ri := False\<rparr>"
definition SET_MI_HIGH :: "target \<Rightarrow> target" where "SET_MI_HIGH s = s\<lparr>mi := True\<rparr>"
definition SET_MI_LOW :: "target \<Rightarrow> target" where "SET_MI_LOW s = s\<lparr>mi := False\<rparr>"
definition SET_BUS_INPUT :: "target \<Rightarrow> target" where "SET_BUS_INPUT s = s\<lparr>bus_output := False\<rparr>"
definition SET_BUS_OUTPUT :: "target \<Rightarrow> target" where "SET_BUS_OUTPUT s = s\<lparr>bus_output := True\<rparr>"

definition read_bus :: "target \<Rightarrow> byte" where
  "read_bus s = bus_level s"

definition write_bus :: "byte \<Rightarrow> target \<Rightarrow> target" where
  "write_bus data s = s\<lparr>bus := data\<rparr>"

section \<open>RAM transfer\<close>

text \<open>
  \<open>read_ram\<close> and \<open>write_ram\<close>, the body of each loop as a function of the loop
  counter. The advisory message of \<open>wait_clock_info\<close> depends on wall-clock time only
  and is left out: the wait itself is \<open>wait_clock_high\<close>. The loop counter is an
  \<open>int\<close>, the address a \<open>byte\<close>: \<open>start + i\<close> wraps at 256.
\<close>

definition read_ram_body :: "byte \<Rightarrow> nat \<Rightarrow> (nat \<Rightarrow> byte) \<times> target \<Rightarrow> (nat \<Rightarrow> byte) \<times> target" where
  "read_ram_body start i st =
     (let address = start + of_nat i;
          s' = exec [wait_clock_low, SET_RO_LOW, SET_BUS_OUTPUT, write_bus address,
                     SET_MI_HIGH, wait_clock_high, wait_clock_low, SET_MI_LOW,
                     SET_BUS_INPUT, SET_RO_HIGH, wait_clock_high] (snd st)
      in ((fst st)(i := read_bus s'), s'))"

definition read_ram :: "(nat \<Rightarrow> byte) \<Rightarrow> byte \<Rightarrow> int \<Rightarrow> target \<Rightarrow> (nat \<Rightarrow> byte) \<times> target" where
  "read_ram data start len s =
     (let s1 = exec [wait_clock_high, wait_clock_high] s;
          st = fold (read_ram_body start) [0..<nat len] (data, s1)
      in (fst st, exec [wait_clock_low, SET_RO_LOW] (snd st)))"

definition write_ram_body :: "(nat \<Rightarrow> byte) \<Rightarrow> byte \<Rightarrow> nat \<Rightarrow> target \<Rightarrow> target" where
  "write_ram_body data start i s =
     (let address = start + of_nat i
      in exec [wait_clock_low, SET_RI_LOW, write_bus address, SET_MI_HIGH, wait_clock_high,
               wait_clock_low, SET_MI_LOW, write_bus (data i), SET_RI_HIGH, wait_clock_high] s)"

definition write_ram :: "(nat \<Rightarrow> byte) \<Rightarrow> byte \<Rightarrow> int \<Rightarrow> target \<Rightarrow> target" where
  "write_ram data start len s =
     (let s1 = exec [wait_clock_high, SET_BUS_OUTPUT, wait_clock_high] s;
          s2 = fold (write_ram_body data start) [0..<nat len] s1
      in exec [wait_clock_low, SET_RI_LOW, SET_BUS_INPUT] s2)"

section \<open>Hexadecimal output\<close>

definition hexdigit :: "nat \<Rightarrow> char" where
  "hexdigit n = ''0123456789abcdef'' ! (n mod 16)"

text \<open>\<open>sprintf(buf, "%02x", v)\<close>: two lower-case hexadecimal digits.\<close>

definition dec2hex :: "byte \<Rightarrow> string" where
  "dec2hex v = [hexdigit (unat (drop_bit 4 v)), hexdigit (unat (v AND 0x0F))]"

section \<open>EEPROM\<close>

text \<open>
  The internal EEPROM, one byte per address. \<open>start\<close>, \<open>size\<close> and the loop counter
  are 16-bit unsigned: \<open>start + size\<close> and \<open>start + i\<close> wrap at 65536.
\<close>

type_synonym eeprom_mem = "nat \<Rightarrow> byte"

definition EEPROM_write :: "nat \<Rightarrow> byte \<Rightarrow> eeprom_mem \<Rightarrow> eeprom_mem" where
  "EEPROM_write idx val ee = ee(idx := val)"

definition EEPROM_read :: "nat \<Rightarrow> eeprom_mem \<Rightarrow> byte" where
  "EEPROM_read idx ee = ee idx"

definition write_eeprom :: "(nat \<Rightarrow> byte) \<Rightarrow> bool \<Rightarrow> uint16 \<Rightarrow> uint16 \<Rightarrow> eeprom_mem \<Rightarrow> bool \<times> eeprom_mem" where
  "write_eeprom buffer internal start size' ee =
     (if internal \<and> start + size' < 1024 - 16
      then (True, fold (\<lambda>i e. EEPROM_write (unat (start + of_nat i)) (buffer i) e)
                       [0..<unat size'] ee)
      else (False, ee))"

definition read_eeprom :: "(nat \<Rightarrow> byte) \<Rightarrow> bool \<Rightarrow> uint16 \<Rightarrow> uint16 \<Rightarrow> eeprom_mem \<Rightarrow> bool \<times> (nat \<Rightarrow> byte)" where
  "read_eeprom buffer internal start size' ee =
     (if internal \<and> start + size' < 1024 - 16
      then (True, fold (\<lambda>i b. b(i := EEPROM_read (unat (start + of_nat i)) ee))
                       [0..<unat size'] buffer)
      else (False, buffer))"

section \<open>The opcode table\<close>

record opcodes_struct =
  mnemonic :: string
  opcode :: byte
  num_cycles :: nat
  has_arg :: bool

definition opc :: "string \<Rightarrow> byte \<Rightarrow> nat \<Rightarrow> bool \<Rightarrow> opcodes_struct" where
  "opc m c n h = \<lparr>mnemonic = m, opcode = c, num_cycles = n, has_arg = h\<rparr>"

text \<open>The table ends where the source has its \<open>NULL\<close> entry.\<close>

definition opcodes_4bit :: "opcodes_struct list" where
  "opcodes_4bit =
    [opc ''NOP  '' 0x00 3 False,
     opc ''LDA  '' 0x10 3 True,
     opc ''ADD  '' 0x20 3 True,
     opc ''SUB  '' 0x30 3 True,
     opc ''STA  '' 0x40 3 True,
     opc ''LDI  '' 0x50 3 True,
     opc ''JMP  '' 0x60 3 True,
     opc ''JC   '' 0x70 3 True,
     opc ''JZ   '' 0x80 3 True,
     opc ''DSI  '' 0x90 3 True,
     opc ''INC  '' 0xA0 3 True,
     opc ''DEC  '' 0xB0 3 True,
     opc ''LDB  '' 0xC0 3 True,
     opc ''DSP  '' 0xD0 3 True,
     opc ''OUT  '' 0xE0 3 False,
     opc ''HLT  '' 0xF0 3 False,
     opc ''.OR  '' 0xFE 0 True,
     opc ''.BY  '' 0xFF 0 True]"

section \<open>Disassembler\<close>

text \<open>
  One pass of the loop of \<open>disassemble\<close>: the address, the byte read from RAM, the
  mnemonic selected by the high nibble and, for a mnemonic with an argument, the low
  nibble through \<open>dec2hex\<close>. \<open>disassemble_text\<close> is the part after the byte.
\<close>

definition disassemble_text :: "byte \<Rightarrow> string" where
  "disassemble_text b =
     mnemonic (opcodes_4bit ! unat (drop_bit 4 b)) @
     (if has_arg (opcodes_4bit ! unat (drop_bit 4 b)) then dec2hex (b AND 0x0F) else [])"

definition disassemble_step :: "int16 \<Rightarrow> serial \<times> target \<Rightarrow> serial \<times> target" where
  "disassemble_step a st =
     (case st of (out, s) \<Rightarrow>
        let (data, s') = read_ram (\<lambda>_. 0) (ucast a) 1 s;
            b = data 0
        in (out @ dec2hex (ucast a) @ '': '' @ dec2hex b @ ''   '' @
              println (disassemble_text b), s'))"

text \<open>
  With an end address \<open>e \<ge> 0\<close> the loop runs while \<open>a \<le> e\<close>. With \<open>e < 0\<close> it
  prints one line, then waits for a key and goes on only after a space: \<open>keys\<close> is the
  serial input, and the result is \<open>None\<close> when the input ends while the loop waits.
  Every caller passes an end address below 256, so the count \<open>e - a + 1\<close> is the
  number of passes.
\<close>

fun disassemble_keys :: "int16 \<Rightarrow> string \<Rightarrow> serial \<times> target \<Rightarrow> (serial \<times> target) option" where
  "disassemble_keys a [] st = None"
| "disassemble_keys a (k # keys) st =
     (if k \<noteq> CHR '' '' then Some (disassemble_step a st)
      else disassemble_keys (a + 1) keys (disassemble_step a st))"

definition disassemble :: "int16 \<Rightarrow> int16 \<Rightarrow> string \<Rightarrow> serial \<times> target \<Rightarrow> (serial \<times> target) option" where
  "disassemble a e keys st =
     (if e <s 0 then disassemble_keys a keys st
      else Some (fold disassemble_step (map (\<lambda>k. a + of_nat k) [0..<nat (sint e - sint a + 1)]) st))"

section \<open>Global state\<close>

text \<open>
  The globals of the firmware that the functions below read and write, together with
  the three things outside it that they act on: the target, the EEPROM and the serial
  output. \<open>labels\<close> has 16 entries and \<open>breakpoints\<close> has 10, as declared.
\<close>

record label_struct =
  label :: string
  loc :: int16
  forward_count :: nat
  forward :: "byte list"

record state =
  num_labels :: nat
  labels :: "label_struct list"
  num_breakpoints :: byte
  breakpoints :: "byte list"
  eeprom :: eeprom_mem
  tgt :: target
  out :: serial

definition MAX_BREAKPOINTS :: nat where "MAX_BREAKPOINTS = 10"
definition ASM_MAX_LABELS :: nat where "ASM_MAX_LABELS = 16"
definition ASM_MAX_LABEL_FORWARD_REF :: nat where "ASM_MAX_LABEL_FORWARD_REF = 16"
definition mode_4bit :: bool where "mode_4bit = True"

definition Serial_print :: "string \<Rightarrow> state \<Rightarrow> state" where
  "Serial_print s st = st\<lparr>out := out st @ s\<rparr>"

definition Serial_println :: "string \<Rightarrow> state \<Rightarrow> state" where
  "Serial_println s st = st\<lparr>out := out st @ println s\<rparr>"

text \<open>
  The state after reset: every global is zero, nothing has been printed. The target
  and the EEPROM are whatever they are.
\<close>

definition label0 :: label_struct where
  "label0 = \<lparr>label = replicate 3 (CHR 0x00), loc = 0, forward_count = 0,
             forward = replicate 16 0\<rparr>"

definition reset_state :: "eeprom_mem \<Rightarrow> target \<Rightarrow> state" where
  "reset_state ee t =
     \<lparr>num_labels = 0, labels = replicate 16 label0, num_breakpoints = 0,
      breakpoints = replicate 10 0, eeprom = ee, tgt = t, out = []\<rparr>"

section \<open>Breakpoints\<close>

text \<open>
  \<open>save_breakpoints\<close> writes the values downwards from address 1021, then the count
  at 1022. \<open>save_breakpoints_writes\<close> is the sequence of \<open>EEPROM.write\<close> calls it
  makes, in order; \<open>save_breakpoints\<close> performs them.
\<close>

definition save_breakpoints_writes :: "state \<Rightarrow> (nat \<times> byte) list" where
  "save_breakpoints_writes st =
     map (\<lambda>i. (1021 - i, breakpoints st ! i)) [0..<unat (num_breakpoints st)] @
     [(1022, num_breakpoints st)]"

definition EEPROM_writes :: "(nat \<times> byte) list \<Rightarrow> eeprom_mem \<Rightarrow> eeprom_mem" where
  "EEPROM_writes ws ee = fold (\<lambda>w e. EEPROM_write (fst w) (snd w) e) ws ee"

definition save_breakpoints :: "state \<Rightarrow> state" where
  "save_breakpoints st = st\<lparr>eeprom := EEPROM_writes (save_breakpoints_writes st) (eeprom st)\<rparr>"

definition load_breakpoints :: "state \<Rightarrow> state" where
  "load_breakpoints st =
     (let n = EEPROM_read 1022 (eeprom st)
      in if unat n \<le> MAX_BREAKPOINTS
         then st\<lparr>num_breakpoints := n,
                 breakpoints := fold (\<lambda>i b. b[i := EEPROM_read (1021 - i) (eeprom st)])
                                     [0..<unat n] (breakpoints st)\<rparr>
         else st)"

definition show_breakpoints :: "state \<Rightarrow> state" where
  "show_breakpoints st =
     Serial_println []
       (fold (\<lambda>i s. Serial_print (dec2hex (breakpoints st ! i)) (Serial_print '' '' s))
             [0..<unat (num_breakpoints st)]
             (Serial_print ''Breakpoints at:'' st))"

text \<open>
  The search loop of the monitor's cases \<open>b\<close> and \<open>B\<close>:
  the first \<open>j\<close> below \<open>num_breakpoints\<close> with \<open>breakpoints[j] == a\<close>, or
  \<open>num_breakpoints\<close> when there is none.
\<close>

fun find_breakpoint :: "byte list \<Rightarrow> nat \<Rightarrow> byte \<Rightarrow> nat \<Rightarrow> nat" where
  "find_breakpoint bps 0 a j = j"
| "find_breakpoint bps (Suc n) a j =
     (if bps ! j = a then j else find_breakpoint bps n a (Suc j))"

text \<open>
  The monitor's case \<open>b\<close> once \<open>parse_arg\<close> has read the address \<open>a\<close> (add a
  breakpoint), its case \<open>B\<close> with an address (remove it) and with \<open>*\<close> (remove all).
\<close>

definition monitor_b :: "byte \<Rightarrow> state \<Rightarrow> state" where
  "monitor_b a st =
     (let n = unat (num_breakpoints st);
          j = find_breakpoint (breakpoints st) n a 0
      in if j \<ge> n
         then if n < MAX_BREAKPOINTS
              then save_breakpoints
                     (Serial_println (dec2hex a)
                        (Serial_print ''Added breakpoint at: ''
                           (st\<lparr>breakpoints := (breakpoints st)[n := a],
                               num_breakpoints := num_breakpoints st + 1\<rparr>)))
              else Serial_println ''Too many breakpoints.'' st
         else Serial_println ''Breakpoint already exists.'' st)"

definition monitor_B :: "byte \<Rightarrow> state \<Rightarrow> state" where
  "monitor_B a st =
     (let n = unat (num_breakpoints st);
          j = find_breakpoint (breakpoints st) n a 0
      in if j < n
         then save_breakpoints
                (Serial_println (dec2hex a)
                   (Serial_print ''Removed breakpoint at: ''
                      (st\<lparr>breakpoints := (breakpoints st)[j := breakpoints st ! (n - 1)],
                          num_breakpoints := num_breakpoints st - 1\<rparr>)))
         else Serial_println ''Breakpoint not found.'' st)"

definition monitor_B_all :: "state \<Rightarrow> state" where
  "monitor_B_all st =
     save_breakpoints (Serial_println ''Removing all breakpoints.'' (st\<lparr>num_breakpoints := 0\<rparr>))"

datatype bp_command = Add byte | Remove byte | RemoveAll

fun bp_step :: "bp_command \<Rightarrow> state \<Rightarrow> state" where
  "bp_step (Add a) st = monitor_b a st"
| "bp_step (Remove a) st = monitor_B a st"
| "bp_step RemoveAll st = monitor_B_all st"

text \<open>The set the array and the count stand for, and its two invariants.\<close>

definition bp_list :: "state \<Rightarrow> byte list" where
  "bp_list st = take (unat (num_breakpoints st)) (breakpoints st)"

definition bp_inv :: "state \<Rightarrow> bool" where
  "bp_inv st \<longleftrightarrow>
     length (breakpoints st) = 10 \<and> unat (num_breakpoints st) \<le> 10 \<and> distinct (bp_list st)"

section \<open>Running the target\<close>

text \<open>
  While \<open>run\<close> has released the control lines the target drives the bus. What the
  firmware sees of one instruction is an observation: the bus in the first cycle (the
  program counter), bit 0 of \<open>PIND\<close> when it is polled (the RX line: low when serial
  data is coming in) and the bus in the second cycle (the opcode). The argument
  \<open>obs\<close> lists what the target will show, instruction by instruction; the loop
  result is \<open>None\<close> when the list ends while the loop is still running.
  The waits for the idle cycles of an instruction only decide when the next observation
  is taken, and are left out with the table of cycle counts.

  The loop result carries the local \<open>opcode\<close>, which the code after the loop reads,
  and two ghost values: why the loop was left and how many instructions ran to the end
  of the loop body.
\<close>

record observation =
  obs_pc :: byte
  obs_rx :: bool
  obs_opcode :: byte

datatype stop_reason = Limit | Breakpoint | HostInput | Halt

definition hlt :: byte where "hlt = 0xF0"

text \<open>The unrolled comparison against the breakpoints, from entry \<open>k\<close> on.\<close>

fun breakpoint_hit :: "byte \<Rightarrow> byte \<Rightarrow> byte list \<Rightarrow> nat \<Rightarrow> nat \<Rightarrow> bool" where
  "breakpoint_hit nb pc bps k 0 = False"
| "breakpoint_hit nb pc bps k (Suc m) =
     (if unat nb < k + 1 then False
      else if pc = bps ! k then True
      else breakpoint_hit nb pc bps (k + 1) m)"

fun run_loop :: "int16 \<Rightarrow> state \<Rightarrow> byte \<Rightarrow> bool \<Rightarrow> byte \<Rightarrow> nat \<Rightarrow> observation list
                 \<Rightarrow> (byte \<times> stop_reason \<times> nat) option" where
  "run_loop num_instructions st i first opcode' n [] =
     (if \<not> (ucast (i + 1) \<le>s num_instructions) then Some (opcode', Limit, n) else None)"
| "run_loop num_instructions st i first opcode' n (ob # obs) =
     (if \<not> (ucast (i + 1) \<le>s num_instructions) then Some (opcode', Limit, n)
      else if \<not> first \<and> breakpoint_hit (num_breakpoints st) (obs_pc ob) (breakpoints st) 0 10
           then Some (opcode', Breakpoint, n)
      else if \<not> obs_rx ob then Some (opcode', HostInput, n)
      else if obs_opcode ob = hlt then Some (obs_opcode ob, Halt, n)
      else run_loop num_instructions st (i + 1) False (obs_opcode ob) (Suc n) obs)"

text \<open>
  The code after the loop: it reads the RX line again (\<open>rx_final\<close>), then compares
  the opcode it read last.
\<close>

definition run_exit :: "byte \<Rightarrow> bool \<Rightarrow> state \<Rightarrow> bool \<times> state" where
  "run_exit opcode' rx_final st =
     (if \<not> rx_final then (False, st)
      else if opcode' = hlt then (False, Serial_println ''Stopped at HLT instruction.'' st)
      else (True, st))"

text \<open>
  \<open>opcode0\<close> is what the uninitialised local \<open>opcode\<close> holds when the function is
  entered.
\<close>

definition run :: "int16 \<Rightarrow> byte \<Rightarrow> observation list \<Rightarrow> bool \<Rightarrow> state \<Rightarrow> (bool \<times> state) option" where
  "run num_instructions opcode0 obs rx_final st =
     (let num_instructions' = (if num_instructions <s 0 then 32767 else num_instructions)
      in case run_loop num_instructions' st 0 True opcode0 0 obs of
           None \<Rightarrow> None
         | Some (opcode', reason, n) \<Rightarrow> Some (run_exit opcode' rx_final st))"

section \<open>Characters\<close>

text \<open>
  The character classes of the C library in the C locale, on the character code.
  \<open>hex_char_to_byte\<close> returns -1 for a character that is no hexadecimal digit.
\<close>

definition isDigit :: "char \<Rightarrow> bool" where
  "isDigit c = (let n = of_char c :: nat in 48 \<le> n \<and> n \<le> 57)"

definition isAlpha :: "char \<Rightarrow> bool" where
  "isAlpha c = (let n = of_char c :: nat in (65 \<le> n \<and> n \<le> 90) \<or> (97 \<le> n \<and> n \<le> 122))"

definition isAlphaNumeric :: "char \<Rightarrow> bool" where
  "isAlphaNumeric c = (isAlpha c \<or> isDigit c)"

definition isSpace :: "char \<Rightarrow> bool" where
  "isSpace c = (let n = of_char c :: nat in n = 32 \<or> (9 \<le> n \<and> n \<le> 13))"

definition tolower :: "char \<Rightarrow> char" where
  "tolower c = (let n = of_char c :: nat in if 65 \<le> n \<and> n \<le> 90 then char_of (n + 32) else c)"

definition hex_char_to_byte :: "char \<Rightarrow> int" where
  "hex_char_to_byte c =
     (let n = of_char c :: int
      in if 48 \<le> n \<and> n \<le> 57 then n - 48
         else if 97 \<le> n \<and> n \<le> 102 then 10 + (n - 97)
         else if 65 \<le> n \<and> n \<le> 70 then 10 + (n - 65)
         else - 1)"

text \<open>
  \<open>strncasecmp(s1, s2, n) == 0\<close> for strings without a NUL among their first \<open>n\<close>
  characters, as the mnemonics are.
\<close>

definition strncasecmp_eq :: "string \<Rightarrow> string \<Rightarrow> nat \<Rightarrow> bool" where
  "strncasecmp_eq s1 s2 n \<longleftrightarrow> map tolower (take n s1) = map tolower (take n s2)"

section \<open>The line buffer\<close>

text \<open>
  While a line is assembled the buffer holds the characters of the line, a space added
  behind them and a terminating NUL at index \<open>len\<close>; the assembler reads no further.
  \<open>at buffer i\<close> is \<open>buffer[i]\<close>, \<open>scan p\<close> is a loop
  \<open>while (i < len && p(buffer[i])) i++\<close>, and \<open>print_word\<close> is the loop that
  writes the characters up to the next space to the serial port.
\<close>

definition at :: "string \<Rightarrow> nat \<Rightarrow> char" where
  "at buffer i = (if i < length buffer then buffer ! i else CHR 0x00)"

function scan :: "(char \<Rightarrow> bool) \<Rightarrow> string \<Rightarrow> nat \<Rightarrow> nat \<Rightarrow> nat" where
  "scan p buffer len i = (if i < len \<and> p (at buffer i) then scan p buffer len (i + 1) else i)"
  by pat_completeness auto
termination
  by (relation "measure (\<lambda>(p, buffer, len, i). len - i)") auto

declare scan.simps [simp del]

definition print_word :: "string \<Rightarrow> nat \<Rightarrow> nat \<Rightarrow> nat \<times> string" where
  "print_word buffer len i =
     (let j = scan (\<lambda>c. \<not> isSpace c) buffer len i in (j, take (j - i) (drop i buffer)))"

section \<open>Arguments\<close>

text \<open>
  \<open>parse_arg\<close> returns its result with the new values of the reference parameters
  \<open>i\<close> and \<open>value\<close>. The value is a \<open>byte\<close>: three decimal digits wrap at 256.
\<close>

definition parse_arg :: "string \<Rightarrow> nat \<Rightarrow> nat \<Rightarrow> byte \<Rightarrow> bool \<Rightarrow> bool \<times> nat \<times> byte" where
  "parse_arg buffer len i val force_hex =
     (if (i < len \<and> at buffer i = CHR ''$'') \<or> force_hex then
        (let i1 = (if at buffer i = CHR ''$'' then i + 1 else i)
         in if i1 < len \<and> hex_char_to_byte (at buffer i1) \<ge> 0 then
              (let v1 = (of_int (hex_char_to_byte (at buffer i1)) :: byte);
                   i2 = i1 + 1
               in if i2 < len \<and> hex_char_to_byte (at buffer i2) \<ge> 0
                  then (True, i2 + 1, push_bit 4 v1 + of_int (hex_char_to_byte (at buffer i2)))
                  else (True, i2, v1))
            else (False, i1, val))
      else if i < len \<and> isDigit (at buffer i) then
        (let v1 = (of_char (at buffer i) - 48 :: byte);
             i1 = i + 1
         in if i1 < len \<and> isDigit (at buffer i1) then
              (let v2 = v1 * 10 + (of_char (at buffer i1) - 48);
                   i2 = i1 + 1
               in if i2 < len \<and> isDigit (at buffer i2)
                  then (True, i2 + 1, v2 * 10 + (of_char (at buffer i2) - 48))
                  else (True, i2, v2))
            else (True, i1, v1))
      else (False, i, val))"

section \<open>Labels\<close>

text \<open>
  \<open>find_label\<close> compares the first three characters, padded with spaces. It returns
  the index of the entry in \<open>labels\<close> in place of the pointer, \<open>None\<close> for \<open>NULL\<close>.
  The loop does not stop at a match: the last matching entry wins.
\<close>

definition label_key :: "string \<Rightarrow> nat \<Rightarrow> string" where
  "label_key lbl llen =
     [at lbl 0,
      if llen > 1 then at lbl 1 else CHR '' '',
      if llen > 2 then at lbl 2 else CHR '' '']"

definition find_label :: "string \<Rightarrow> nat \<Rightarrow> state \<Rightarrow> nat option \<times> state" where
  "find_label lbl llen s =
     (let lbuf = label_key lbl llen;
          res = fold (\<lambda>i r. if label (labels s ! i) = lbuf then Some i else r)
                     [0..<num_labels s] None
      in if res = None \<and> num_labels s < ASM_MAX_LABELS
         then (Some (num_labels s),
               s\<lparr>labels := (labels s)[num_labels s :=
                             (labels s ! num_labels s)\<lparr>label := lbuf, forward_count := 0,
                                                       loc := - 1\<rparr>],
                 num_labels := num_labels s + 1\<rparr>)
         else (res, s))"

section \<open>The assembler\<close>

text \<open>
  The locals of \<open>assemble\<close> that live across lines, \<open>a\<close> (the address the next
  byte goes to) and \<open>addr\<close> (the origin), with the global state.
\<close>

record assembly =
  asm_a :: int16
  asm_addr :: int16
  asm_st :: state

definition say :: "string \<Rightarrow> assembly \<Rightarrow> assembly" where
  "say s x = x\<lparr>asm_st := Serial_println s (asm_st x)\<rparr>"

definition say_word :: "string \<Rightarrow> string \<Rightarrow> string \<Rightarrow> assembly \<Rightarrow> assembly" where
  "say_word s w t x =
     x\<lparr>asm_st := Serial_println [] (Serial_print t (Serial_print w (Serial_print s (asm_st x))))\<rparr>"

text \<open>
  Patching one forward reference when its label is defined at address \<open>a\<close>: the byte
  is read from the site, the address is added into it and it is written back. The
  arithmetic is done in \<open>int\<close> and stored in a \<open>byte\<close>.
\<close>

definition patch_forward :: "int16 \<Rightarrow> byte \<Rightarrow> target \<Rightarrow> target" where
  "patch_forward a site t =
     (let r = read_ram (\<lambda>_. 0) site 1 t;
          b = fst r 0;
          b' = (if mode_4bit
                then ucast ((ucast (b AND 0xF0) :: int16) OR
                            ((a + ucast (b AND 0x0F)) AND 0x0F))
                else b + ucast a)
      in write_ram (\<lambda>_. b') site 1 (snd r))"

definition define_label :: "nat \<Rightarrow> assembly \<Rightarrow> assembly" where
  "define_label k x =
     (let s = asm_st x;
          l = labels s ! k;
          sites = map (\<lambda>j. forward l ! j) [0..<forward_count l]
      in x\<lparr>asm_st := s\<lparr>tgt := fold (patch_forward (asm_a x)) sites (tgt s),
                         labels := (labels s)[k := l\<lparr>forward_count := 0, loc := asm_a x\<rparr>]\<rparr>\<rparr>)"

text \<open>The label at the start of a line. The result is \<open>ok\<close>, \<open>i\<close> and the state.\<close>

definition asm_label :: "string \<Rightarrow> assembly \<Rightarrow> bool \<times> nat \<times> assembly" where
  "asm_label buffer x =
     (let len = length buffer
      in if isAlpha (at buffer 0) then
           (let i = scan isAlphaNumeric buffer len 0;
                f = find_label buffer i (asm_st x);
                x1 = x\<lparr>asm_st := snd f\<rparr>
            in case fst f of
                 None \<Rightarrow> (False, i, say ''Too many labels.'' x1)
               | Some k \<Rightarrow>
                   if 0 \<le>s loc (labels (snd f) ! k)
                   then (False, i, say ''Duplicate label definition.'' x1)
                   else (True, i, define_label k x1))
         else if \<not> isSpace (at buffer 0) then
           (let w = print_word buffer len 0
            in (False, fst w, say_word ''Invalid label: '' (snd w) [] x))
         else (True, 0, x))"

text \<open>
  The search of the opcode table from entry \<open>j\<close> on; \<open>m\<close> is the buffer from the
  start of the mnemonic and \<open>rest\<close> is \<open>i < len\<close>. The result is \<open>opcodeIdx\<close>,
  \<open>ok\<close> and \<open>noargmatch\<close>.
\<close>

fun find_opcode :: "opcodes_struct list \<Rightarrow> nat \<Rightarrow> string \<Rightarrow> bool \<Rightarrow> bool \<Rightarrow> bool
                    \<Rightarrow> int \<times> bool \<times> bool" where
  "find_opcode [] j m isimmediate rest noargmatch = (- 1, False, noargmatch)"
| "find_opcode (oc # ocs) j m isimmediate rest noargmatch =
     (if strncasecmp_eq (mnemonic oc) m 3 \<and> isimmediate = (at (mnemonic oc) 4 = CHR ''#'')
      then if \<not> has_arg oc \<or> rest then (int j, True, noargmatch)
           else find_opcode ocs (j + 1) m isimmediate rest True
      else find_opcode ocs (j + 1) m isimmediate rest noargmatch)"

text \<open>
  A label as argument. \<open>asm_reference\<close> is what is done with the result \<open>f\<close> of
  \<open>find_label\<close>: an undefined label gets the forward reference recorded, a defined
  one gives its address. Its result is \<open>ok\<close>, \<open>arg\<close> and the state.
\<close>

definition asm_reference :: "nat option \<times> state \<Rightarrow> assembly \<Rightarrow> bool \<times> byte \<times> assembly" where
  "asm_reference f x =
     (let s1 = snd f;
          x1 = x\<lparr>asm_st := s1\<rparr>
      in case fst f of
           None \<Rightarrow> (False, 0, say ''Too many labels.'' x1)
         | Some k \<Rightarrow>
             (let l = labels s1 ! k
              in if loc l <s 0 then
                   if forward_count l < ASM_MAX_LABEL_FORWARD_REF
                   then (True, 0,
                         x1\<lparr>asm_st := s1\<lparr>labels := (labels s1)[k :=
                              l\<lparr>forward := (forward l)[forward_count l :=
                                   ucast (if mode_4bit then asm_a x else asm_a x + 1)],
                                forward_count := forward_count l + 1\<rparr>]\<rparr>\<rparr>)
                   else (False, 0, say ''Too many forward references to label.'' x1)
                 else (True, ucast (loc l), x1)))"

text \<open>
  The optional \<open>+\<close> or \<open>-\<close> term behind the label, at index \<open>i\<close>. The result is
  \<open>ok\<close>, \<open>i\<close>, \<open>arg\<close> and the state.
\<close>

definition asm_offset :: "string \<Rightarrow> nat \<Rightarrow> bool \<Rightarrow> byte \<Rightarrow> assembly
                          \<Rightarrow> bool \<times> nat \<times> byte \<times> assembly" where
  "asm_offset buffer i ok arg x =
     (let len = length buffer
      in if at buffer i = CHR ''+'' \<or> at buffer i = CHR ''-'' then
           (let issub = (at buffer i = CHR ''-'');
                i2 = scan isSpace buffer len (i + 1)
            in if i2 < len then
                 (let p = parse_arg buffer len i2 0 False
                  in if fst p
                     then (ok, fst (snd p),
                           arg + (if issub then - snd (snd p) else snd (snd p)), x)
                     else (let w = print_word buffer len (fst (snd p))
                           in (False, fst w, arg,
                               say_word (''Invalid argument to '' @ [CHR 0x27] @ ''+/-'' @
                                         [CHR 0x27] @ '' operator: '') (snd w) [] x)))
               else (False, i2, arg,
                     say (''Expected argument to '' @ [CHR 0x27] @ ''+/-'' @ [CHR 0x27] @
                          '' operator'') x))
         else (ok, i, arg, x))"

definition asm_label_ref :: "string \<Rightarrow> nat \<Rightarrow> assembly \<Rightarrow> bool \<times> nat \<times> byte \<times> assembly" where
  "asm_label_ref buffer i0 x =
     (let len = length buffer;
          lblStart = i0;
          i = scan isAlphaNumeric buffer len i0;
          r = asm_reference (find_label (drop lblStart buffer) (i - lblStart) (asm_st x)) x
      in asm_offset buffer i (fst r) (fst (snd r)) (snd (snd r)))"

text \<open>
  The mnemonic and its argument, from index \<open>i0\<close>. The result is \<open>ok\<close>, \<open>i\<close>,
  \<open>opcodeIdx\<close>, \<open>arg\<close> and the state.
\<close>

definition asm_mnemonic :: "string \<Rightarrow> nat \<Rightarrow> assembly \<Rightarrow> bool \<times> nat \<times> int \<times> byte \<times> assembly" where
  "asm_mnemonic buffer i0 x =
     (let len = length buffer;
          i = scan isSpace buffer len i0
      in if i < len then
           (let mstart = i;
                i1 = (if i + 3 \<le> len then scan isSpace buffer len (i + 3) else i);
                isimmediate = (i + 3 \<le> len \<and> i1 < len \<and> at buffer i1 = CHR ''#'');
                i2 = (if isimmediate then i1 + 1 else i1);
                f = (if i + 3 \<le> len
                     then find_opcode opcodes_4bit 0 (drop mstart buffer) isimmediate
                            (i2 < len) False
                     else (- 1, False, False));
                opcodeIdx = fst f;
                ok = fst (snd f);
                noargmatch = snd (snd f)
            in if \<not> ok then
                 (if noargmatch then (False, i2, opcodeIdx, 0, say ''Expected argument'' x)
                  else (let w = print_word buffer len mstart
                        in (False, fst w, opcodeIdx, 0,
                            say_word ''Invalid mnemonic: '' (snd w)
                              (if isimmediate then '' #'' else []) x)))
               else if has_arg (opcodes_4bit ! nat opcodeIdx) then
                 (if i2 < len then
                    (if isAlpha (at buffer i2) then
                       (let r = asm_label_ref buffer i2 x
                        in (fst r, fst (snd r), opcodeIdx, fst (snd (snd r)), snd (snd (snd r))))
                     else
                       (let p = parse_arg buffer len i2 0 False
                        in if fst p then (True, fst (snd p), opcodeIdx, snd (snd p), x)
                           else (let w = print_word buffer len (fst (snd p))
                                 in (False, fst w, opcodeIdx, snd (snd p),
                                     say_word ''Invalid argument: '' (snd w) [] x))))
                  else (False, i2, opcodeIdx, 0, say ''Expected argument'' x))
               else (True, i2, opcodeIdx, 0, x))
         else (True, i, - 1, 0, x))"

text \<open>Storing the instruction, or obeying the pseudo-opcode.\<close>

definition emit :: "byte \<Rightarrow> assembly \<Rightarrow> assembly" where
  "emit b x =
     x\<lparr>asm_st := (asm_st x)\<lparr>tgt := write_ram (\<lambda>_. b) (ucast (asm_a x)) 1 (tgt (asm_st x))\<rparr>,
       asm_a := asm_a x + 1\<rparr>"

definition asm_emit :: "int \<Rightarrow> byte \<Rightarrow> assembly \<Rightarrow> assembly" where
  "asm_emit opcodeIdx arg x =
     (let opcode' = opcode (opcodes_4bit ! nat opcodeIdx)
      in if opcode' = 0xFF then emit arg x
         else if opcode' = 0xFE then x\<lparr>asm_addr := ucast arg, asm_a := ucast arg\<rparr>
         else if mode_4bit then emit (opcode' OR (arg AND 0x0F)) x
         else (let x1 = emit opcode' x
               in if has_arg (opcodes_4bit ! nat opcodeIdx) then emit arg x1 else x1))"

text \<open>
  One line, from the point where its characters are in the buffer. The reading loop
  before it (prompt, echo, backspace, comments) is the console's and is not modelled.
  The buffer has 256 bytes: a line of more than 254 characters makes the source write
  behind it, and the model gives \<open>None\<close>.
\<close>

definition BUFFER_SIZE :: nat where "BUFFER_SIZE = 256"

definition assemble_line :: "string \<Rightarrow> assembly \<Rightarrow> assembly option" where
  "assemble_line line x =
     (if length line + 2 > BUFFER_SIZE then None
      else
        (let buffer = line @ '' '';
             len = length buffer
         in if len = 0 then Some x
            else
              (let l = asm_label buffer x;
                   m = (if fst l then asm_mnemonic buffer (fst (snd l)) (snd (snd l))
                        else (False, fst (snd l), - 1, 0, snd (snd l)));
                   ok = fst m;
                   i = scan isSpace buffer len (fst (snd m));
                   opcodeIdx = fst (snd (snd m));
                   arg = fst (snd (snd (snd m)));
                   x2 = snd (snd (snd (snd m)));
                   x3 = (if ok \<and> i < len
                         then say (''Extra ignored: '' @ drop i buffer) x2 else x2)
               in Some (if ok \<and> opcodeIdx \<ge> 0 then asm_emit opcodeIdx arg x3 else x3))))"

fun assemble_lines :: "string list \<Rightarrow> assembly \<Rightarrow> assembly option" where
  "assemble_lines [] x = Some x"
| "assemble_lines (line # lines) x =
     (case assemble_line line x of None \<Rightarrow> None | Some x' \<Rightarrow> assemble_lines lines x')"

text \<open>The summary of the labels that were never defined, printed when \<open>a > addr\<close>.\<close>

definition label_name :: "label_struct \<Rightarrow> string" where
  "label_name l = takeWhile (\<lambda>c. c \<noteq> CHR '' '') (take 3 (label l))"

fun undefined_labels :: "label_struct list \<Rightarrow> bool \<Rightarrow> string" where
  "undefined_labels [] header = []"
| "undefined_labels (l # ls) header =
     (if loc l <s 0
      then (if header then CHR 0x0A # ''UNDEFINED LABELS: '' else '','') @ label_name l @
           undefined_labels ls False
      else undefined_labels ls header)"

definition asm_summary :: "assembly \<Rightarrow> assembly" where
  "asm_summary x =
     (if asm_addr x <s asm_a x
      then say (undefined_labels (take (num_labels (asm_st x)) (labels (asm_st x))) True) x
      else x)"

text \<open>
  \<open>assemble\<close> for a session in which the lines \<open>lines\<close> are entered, each ended
  by a carriage return, and then ESC or Ctrl-Z.
\<close>

definition assemble :: "int16 \<Rightarrow> string list \<Rightarrow> state \<Rightarrow> state option" where
  "assemble addr0 lines s =
     map_option (\<lambda>x. asm_st (asm_summary x))
       (assemble_lines lines \<lparr>asm_a = addr0, asm_addr = addr0, asm_st = s\<lparr>num_labels := 0\<rparr>\<rparr>)"

section \<open>Auxiliary definitions for the statements\<close>

text \<open>The RAM cell that the byte address \<open>start + i\<close> selects.\<close>

definition cell :: "byte \<Rightarrow> nat \<Rightarrow> 4 word" where
  "cell start i = ucast (start + of_nat i)"

text \<open>A target with cleared RAM and all lines low, and a RAM holding a given list.\<close>

definition target0 :: target where
  "target0 = \<lparr>ram = (\<lambda>_. 0), mar = 0, clk = False, bus = 0, bus_output = False,
              mi = False, ri = False, ro = False\<rparr>"

definition target_of :: "byte list \<Rightarrow> target" where
  "target_of bs = target0\<lparr>ram := (\<lambda>c. if unat c < length bs then bs ! unat c else 0)\<rparr>"

text \<open>A state whose breakpoint set is full, with the values 0 to 9.\<close>

definition full_state :: state where
  "full_state =
     (reset_state (\<lambda>_. 0xFF) target0)
       \<lparr>num_breakpoints := 10, breakpoints := [0, 1, 2, 3, 4, 5, 6, 7, 8, 9]\<rparr>"

text \<open>
  What \<open>load_breakpoints\<close> makes of an EEPROM content after reset, and a state with
  the three breakpoints 1, 2, 3 saved in its EEPROM.
\<close>

definition stored_list :: "eeprom_mem \<Rightarrow> byte list" where
  "stored_list ee = bp_list (load_breakpoints (reset_state ee target0))"

definition three_state :: state where
  "three_state =
     save_breakpoints
       ((reset_state (\<lambda>_. 0xFF) target0)
          \<lparr>num_breakpoints := 3, breakpoints := [1, 2, 3, 0, 0, 0, 0, 0, 0, 0]\<rparr>)"

text \<open>
  The ghost values of a call of \<open>run\<close>: why its loop was left and after how many
  instructions.
\<close>

definition run_stop :: "int16 \<Rightarrow> byte \<Rightarrow> observation list \<Rightarrow> state \<Rightarrow> (stop_reason \<times> nat) option" where
  "run_stop num_instructions opcode0 obs st =
     map_option snd
       (run_loop (if num_instructions <s 0 then 32767 else num_instructions) st 0 True
          opcode0 0 obs)"

text \<open>
  An observation that stops nothing for a state without breakpoints (a \<open>NOP\<close> at
  address 0, RX idle), one with serial data coming in, and one showing \<open>HLT\<close>.
\<close>

definition idle_observation :: observation where
  "idle_observation = \<lparr>obs_pc = 0, obs_rx = True, obs_opcode = 0x00\<rparr>"

definition serial_observation :: observation where
  "serial_observation = \<lparr>obs_pc = 0, obs_rx = False, obs_opcode = 0x00\<rparr>"

definition halt_observation :: observation where
  "halt_observation = \<lparr>obs_pc = 0, obs_rx = True, obs_opcode = 0xF0\<rparr>"

text \<open>An observation that leaves the loop running.\<close>

definition passes :: "state \<Rightarrow> observation \<Rightarrow> bool" where
  "passes st ob \<longleftrightarrow>
     obs_rx ob \<and> obs_opcode ob \<noteq> hlt \<and>
     \<not> breakpoint_hit (num_breakpoints st) (obs_pc ob) (breakpoints st) 0 10"

text \<open>The state after reset, over an erased EEPROM and a cleared target.\<close>

definition quiet_state :: state where
  "quiet_state = reset_state (\<lambda>_. 0xFF) target0"

text \<open>
  An identifier as the assembler scans it: a letter, then letters and digits.
\<close>

definition ident :: "string \<Rightarrow> bool" where
  "ident w \<longleftrightarrow> w \<noteq> [] \<and> isAlpha (hd w) \<and> (\<forall>c \<in> set w. isAlphaNumeric c)"

text \<open>An assembly at address 0 over the state after reset.\<close>

definition start_assembly :: assembly where
  "start_assembly = \<lparr>asm_a = 0, asm_addr = 0, asm_st = quiet_state\<rparr>"

text \<open>
  Assembling what the disassembler prints for the byte \<open>b\<close>, as the instruction of a
  line: behind a space, since a line that starts with a letter starts with a label.
\<close>

definition reassemble :: "byte \<Rightarrow> assembly \<Rightarrow> assembly option" where
  "reassemble b x = assemble_line (CHR '' '' # disassemble_text b) x"

text \<open>
  The byte that patching leaves at a site holding \<open>b\<close> when the label is defined at
  address \<open>a\<close> (the 4-bit branch of \<open>patch_forward\<close>), and the control lines MI and
  RI low, as \<open>enable_signal_control\<close> and every RAM transfer leave them.
\<close>

definition patch_byte :: "int16 \<Rightarrow> byte \<Rightarrow> byte" where
  "patch_byte a b = ucast ((ucast (b AND 0xF0) :: int16) OR ((a + ucast (b AND 0x0F)) AND 0x0F))"

definition lines_low :: "target \<Rightarrow> bool" where
  "lines_low t \<longleftrightarrow> \<not> mi t \<and> \<not> ri t"

text \<open>
  The label table is well-formed when at most 16 of its 16 entries are in use and no
  two of them have the same name. A line defines the label \<open>K\<close> (a name of three
  characters) when it starts with an identifier that \<open>find_label\<close> looks up as
  \<open>K\<close>. The entry \<open>k\<close> is pending for \<open>K\<close> when it is in use, has the name
  \<open>K\<close> and no address yet. \<open>keeps_refs\<close> says that the forward references
  recorded in entry \<open>k\<close> of the first state are still recorded in the second.
\<close>

definition table_ok :: "state \<Rightarrow> bool" where
  "table_ok s \<longleftrightarrow>
     num_labels s \<le> 16 \<and> length (labels s) = 16 \<and>
     distinct (map label (take (num_labels s) (labels s)))"

definition line_defines :: "string \<Rightarrow> string \<Rightarrow> bool" where
  "line_defines line K \<longleftrightarrow>
     isAlpha (at (line @ '' '') 0) \<and>
     label_key (line @ '' '')
       (scan isAlphaNumeric (line @ '' '') (length (line @ '' '')) 0) = K"

definition pending :: "string \<Rightarrow> nat \<Rightarrow> state \<Rightarrow> bool" where
  "pending K k s \<longleftrightarrow> k < num_labels s \<and> label (labels s ! k) = K \<and> loc (labels s ! k) <s 0"

definition keeps_refs :: "nat \<Rightarrow> state \<Rightarrow> state \<Rightarrow> bool" where
  "keeps_refs k s s' \<longleftrightarrow>
     forward_count (labels s ! k) \<le> forward_count (labels s' ! k) \<and>
     take (forward_count (labels s ! k)) (forward (labels s' ! k)) =
       take (forward_count (labels s ! k)) (forward (labels s ! k))"

text \<open>The names that the summary lists: those of the entries in use without address.\<close>

definition undefined_names :: "state \<Rightarrow> string list" where
  "undefined_names s =
     map label_name (filter (\<lambda>l. loc l <s 0) (take (num_labels s) (labels s)))"

fun join_names :: "string list \<Rightarrow> string" where
  "join_names [] = []"
| "join_names [n] = n"
| "join_names (n # ns) = n @ '','' @ join_names ns"

text \<open>
  Helpers for the proofs: the search loop of \<open>find_label\<close> on its own, two states
  with the same label table, and a step that carries a pending entry along.
\<close>

definition lookup :: "state \<Rightarrow> string \<Rightarrow> nat \<Rightarrow> nat option" where
  "lookup s key n = fold (\<lambda>i r. if label (labels s ! i) = key then Some i else r) [0..<n] None"

definition same_table :: "state \<Rightarrow> state \<Rightarrow> bool" where
  "same_table s s' \<longleftrightarrow> labels s' = labels s \<and> num_labels s' = num_labels s"

definition carries :: "string \<Rightarrow> nat \<Rightarrow> state \<Rightarrow> state \<Rightarrow> bool" where
  "carries K k s s' \<longleftrightarrow>
     (table_ok s \<and> pending K k s \<longrightarrow> table_ok s' \<and> pending K k s' \<and> keeps_refs k s s')"

text \<open>
  An assembly as the lines \<open>JMP X\<close> and \<open>NOP\<close>, entered at address 0, leave it:
  the label \<open>X\<close> has no address and one forward reference, at site 0, where the
  jump opcode stands with the placeholder 0.
\<close>

definition ref_assembly :: assembly where
  "ref_assembly =
     \<lparr>asm_a = 2, asm_addr = 0,
      asm_st = quiet_state
        \<lparr>num_labels := 1,
         labels := (replicate 16 label0)
                     [0 := \<lparr>label = ''X  '', loc = - 1, forward_count = 1,
                            forward = replicate 16 0\<rparr>],
         tgt := target_of [0x60, 0x00]\<rparr>\<rparr>"

text \<open>
  What is looked at in the two assemblies that go wrong: the byte in RAM cell 0 with
  the address and the number of pending references of the first label; the undefined
  names with the condition under which the summary is printed; the byte in RAM cell 0
  with the serial output.
\<close>

definition site0 :: "assembly \<Rightarrow> byte \<times> int16 \<times> nat" where
  "site0 y = (ram (tgt (asm_st y)) 0, loc (labels (asm_st y) ! 0),
              forward_count (labels (asm_st y) ! 0))"

definition reported :: "assembly \<Rightarrow> string list \<times> bool" where
  "reported y = (undefined_names (asm_st y), asm_addr y <s asm_a y)"

definition stored0 :: "assembly \<Rightarrow> byte \<times> serial" where
  "stored0 y = (ram (tgt (asm_st y)) 0, out (asm_st y))"

section \<open>Bus protocol lemmas\<close>

lemmas line_defs = exec_def wait_clock_low_def wait_clock_high_def clock_rise_def
  bus_level_def SET_RO_LOW_def SET_RO_HIGH_def SET_RI_LOW_def SET_RI_HIGH_def
  SET_MI_HIGH_def SET_MI_LOW_def write_bus_def SET_BUS_OUTPUT_def SET_BUS_INPUT_def
  read_bus_def

lemma write_ram_body_eq:
  "bus_output s \<Longrightarrow> write_ram_body data start i s =
     s\<lparr>ram := (ram s)(cell start i := data i), mar := cell start i, clk := True,
       bus := data i, mi := False, ri := True\<rparr>"
  by (simp add: write_ram_body_def cell_def Let_def line_defs)

lemma read_ram_body_eq:
  "\<not> ri s \<Longrightarrow> read_ram_body start i (d, s) =
     (d(i := ram s (cell start i)),
      s\<lparr>mar := cell start i, clk := True, bus := start + of_nat i, bus_output := False,
        mi := False, ro := True\<rparr>)"
  by (simp add: read_ram_body_def cell_def Let_def line_defs)

lemma unat_cell: "unat start + i < 16 \<Longrightarrow> unat (cell start i) = unat start + i"
proof -
  assume h: "unat start + i < 16"
  have "unat (start + of_nat i :: byte) = (unat start + i) mod 256"
    by (simp add: unat_word_ariths unat_of_nat) presburger
  with h have u: "unat (start + of_nat i :: byte) = unat start + i" by simp
  have "unat (cell start i) = unat (start + of_nat i :: byte) mod 16"
    by (simp add: cell_def unsigned_ucast_eq take_bit_eq_mod)
  with u h show ?thesis by simp
qed

lemma cell_inj:
  assumes "unat start + n \<le> 16" "i < n" "j < n" "cell start i = cell start j"
  shows "i = j"
proof -
  have "unat (cell start i) = unat start + i" "unat (cell start j) = unat start + j"
    using assms(1-3) by (simp_all add: unat_cell)
  with arg_cong [OF assms(4), of unat] show ?thesis by simp
qed

lemma write_loop:
  "bus_output s \<Longrightarrow> unat start + n \<le> 16 \<Longrightarrow>
   bus_output (fold (write_ram_body data start) [0..<n] s) \<and>
   (\<forall>i<n. ram (fold (write_ram_body data start) [0..<n] s) (cell start i) = data i)"
proof (induction n)
  case 0
  then show ?case by simp
next
  case (Suc n)
  let ?t = "fold (write_ram_body data start) [0..<n] s"
  from Suc have bo: "bus_output ?t" and old: "\<forall>i<n. ram ?t (cell start i) = data i" by simp_all
  have step: "fold (write_ram_body data start) [0..<Suc n] s = write_ram_body data start n ?t"
    by simp
  have ne: "cell start i \<noteq> cell start n" if "i < n" for i
    using cell_inj [where start = start and n = "Suc n" and i = i and j = n] Suc.prems(2) that
    by auto
  show ?case unfolding step write_ram_body_eq [OF bo]
    using old ne bo by (auto simp: less_Suc_eq)
qed

lemma read_loop:
  "\<not> ri s \<Longrightarrow>
   \<not> ri (snd (fold (read_ram_body start) [0..<n] (d, s))) \<and>
   ram (snd (fold (read_ram_body start) [0..<n] (d, s))) = ram s \<and>
   (\<forall>i<n. fst (fold (read_ram_body start) [0..<n] (d, s)) i = ram s (cell start i))"
proof (induction n)
  case 0
  then show ?case by simp
next
  case (Suc n)
  obtain d1 s1 where f: "fold (read_ram_body start) [0..<n] (d, s) = (d1, s1)"
    by (cases "fold (read_ram_body start) [0..<n] (d, s)")
  with Suc have h: "\<not> ri s1" "ram s1 = ram s" "\<forall>i<n. d1 i = ram s (cell start i)" by simp_all
  show ?case
    using h by (simp add: f read_ram_body_eq less_Suc_eq)
qed

lemma read_ram_1:
  "\<not> ri s \<Longrightarrow> \<not> mi s \<Longrightarrow> read_ram d a 1 s =
     (d(0 := ram s (ucast a)),
      s\<lparr>mar := ucast a, clk := False, bus := a, bus_output := False, mi := False,
        ro := False\<rparr>)"
  by (simp add: read_ram_def read_ram_body_def Let_def line_defs)

lemma drop4_low: "drop_bit 4 (b AND 0x0F) = (0::byte)"
  by (rule bit_word_eqI) (auto simp: bit_simps)

lemma low_low: "(b AND 0x0F) AND 0x0F = (b AND 0x0F :: byte)"
  by (simp add: and.assoc)

section \<open>Nibble arithmetic\<close>

lemma m15: "(0x0F :: byte) = mask 4" by (simp add: mask_eq_exp_minus_1)
lemma m240: "(0xF0 :: byte) = NOT (mask 4)" by (simp add: mask_eq_exp_minus_1 not_eq_complement)
lemma m15w: "(0x0F :: int16) = mask 4" by (simp add: mask_eq_exp_minus_1)

lemma patch_byte_split:
  "patch_byte a b = (b AND NOT (mask 4)) OR ucast (take_bit 4 (a + ucast (take_bit 4 b)))"
  unfolding patch_byte_def m240 m15 m15w take_bit_eq_mask
  by (rule bit_word_eqI) (auto simp: bit_simps)

lemma patch_byte_high: "patch_byte a b AND 0xF0 = b AND 0xF0"
  unfolding patch_byte_split m240
  by (rule bit_word_eqI) (auto simp: bit_simps)

lemma patch_byte_low': "take_bit 4 (patch_byte a b) = take_bit 4 (ucast (a + ucast (take_bit 4 b)) :: byte)"
  unfolding patch_byte_split 
  by (rule bit_word_eqI) (auto simp: bit_simps)

lemma mod_chain: "(x + y mod 256) mod 256 mod 16 = (x + y) mod (16::nat)"
proof -
  have "(x + y mod 256) mod 256 mod 16 = (x + y mod 256) mod 16" by (simp add: mod_mod_cancel)
  also have "\<dots> = (x + y mod 256 mod 16) mod 16" by (simp only: mod_add_right_eq)
  also have "y mod 256 mod 16 = y mod 16" by (simp add: mod_mod_cancel)
  finally show ?thesis by (simp only: mod_add_right_eq)
qed

lemma mod_chain2: "(x + y mod 16) mod 65536 mod 256 mod 16 = (x + y) mod (16::nat)"
proof -
  have "(x + y mod 16) mod 65536 mod 256 mod 16 = (x + y mod 16) mod 16" by (simp add: mod_mod_cancel)
  then show ?thesis by (simp only: mod_add_right_eq)
qed

lemma low_sum: "take_bit 4 (ucast (a + ucast (take_bit 4 (b::byte)) :: int16) :: byte) = take_bit 4 (b + ucast a)"
proof -
  have l: "unat (take_bit 4 (ucast (a + ucast (take_bit 4 b) :: int16) :: byte)) = (unat a + unat b) mod 16"
    by (simp add: unsigned_take_bit_eq unsigned_ucast_eq unat_word_ariths take_bit_eq_mod mod_chain2)
  have r: "unat (take_bit 4 (b + ucast a :: byte)) = (unat (a::int16) + unat b) mod 16"
    by (simp add: unsigned_take_bit_eq unsigned_ucast_eq unat_word_ariths take_bit_eq_mod mod_chain add.commute)
  from l r show ?thesis by (simp add: word_unat_eq_iff)
qed

lemma patch_byte_low: "patch_byte a b AND 0x0F = (b + ucast a) AND 0x0F"
  unfolding m15 take_bit_eq_mask [symmetric] patch_byte_low' low_sum ..

lemma unat_low: "unat (w AND (0x0F :: byte)) = unat w mod 16"
  by (simp add: m15 take_bit_eq_mask [symmetric] unsigned_take_bit_eq take_bit_eq_mod unat_mod)

lemma unat_low_add: "unat ((x + z) AND (0x0F :: byte)) = (unat x mod 16 + unat z) mod 16"
proof -
  have "unat ((x + z) AND (0x0F :: byte)) = (unat x + unat z) mod 256 mod 16"
    by (simp add: unat_low unat_word_ariths)
  also have "\<dots> = (unat x + unat z) mod 16" by (simp add: mod_mod_cancel)
  also have "\<dots> = (unat x mod 16 + unat z) mod 16" by (simp only: mod_add_left_eq)
  finally show ?thesis .
qed

lemma low_cong:
  assumes "x AND 0x0F = y AND (0x0F :: byte)"
  shows "(x + z) AND 0x0F = (y + z) AND 0x0F"
proof -
  from assms have "unat (x AND 0x0F) = unat (y AND 0x0F)" by simp
  then have "unat x mod 16 = unat y mod 16" by (simp only: unat_low)
  then have "unat ((x + z) AND 0x0F) = unat ((y + z) AND 0x0F)" by (simp only: unat_low_add)
  then show ?thesis by (simp only: word_unat_eq_iff)
qed

section \<open>C1: RAM round trip\<close>

text \<open>
  C1. For every start address and every byte sequence that fits in the 16-byte RAM
  (\<open>start + len \<le> 16\<close>), \<open>write_ram\<close> followed by \<open>read_ram\<close> over the same range
  reads back exactly the bytes written, whatever the target's RAM, address register
  and lines were before and whatever the read buffer held.
\<close>

theorem ram_round_trip:
  assumes "unat start + nat len \<le> 16"
  shows "map (fst (read_ram buf start len (write_ram data start len s))) [0..<nat len]
         = map data [0..<nat len]"
proof -
  let ?s1 = "exec [wait_clock_high, SET_BUS_OUTPUT, wait_clock_high] s"
  let ?s2 = "fold (write_ram_body data start) [0..<nat len] ?s1"
  let ?w = "write_ram data start len s"
  have bo: "bus_output ?s1"
    by (simp add: line_defs)
  have w: "\<forall>i<nat len. ram ?s2 (cell start i) = data i"
    using write_loop [OF bo assms] by simp
  have weq: "?w = exec [wait_clock_low, SET_RI_LOW, SET_BUS_INPUT] ?s2"
    by (simp add: write_ram_def Let_def)
  have w1: "ram ?w = ram ?s2" "\<not> ri ?w" "\<not> clk ?w"
    unfolding weq by (simp_all add: line_defs)
  let ?r1 = "exec [wait_clock_high, wait_clock_high] ?w"
  have r1: "\<not> ri ?r1" "ram ?r1 = ram ?w"
    using w1 by (simp_all add: line_defs)
  have "\<forall>i<nat len. fst (read_ram buf start len ?w) i = ram ?r1 (cell start i)"
    using read_loop [OF r1(1), where start = start and n = "nat len" and d = buf]
    by (simp add: read_ram_def Let_def)
  with w r1 w1 show ?thesis by simp
qed

theorem ram_round_trip_witness:
  "unat (3 :: byte) + nat 2 \<le> 16 \<and>
   map (fst (read_ram (\<lambda>_. 0) 3 2
               (write_ram (\<lambda>i. if i = 0 then 0x55 else 0xE0) 3 2 target0)))
       [0..<nat 2]
     = [0x55, 0xE0]"
  using ram_round_trip [of 3 2 "\<lambda>_. 0" "\<lambda>i. if i = 0 then 0x55 else 0xE0" target0]
  by (simp add: upt_rec)

section \<open>Lemmas on the run loop\<close>

lemma sint_ucast_byte: "sint (ucast (j::byte) :: int16) = uint j"
proof -
  have b: "0 \<le> uint j" "uint j < 256" using uint_lt2p [of j] by simp_all
  have "uint (ucast j :: int16) = take_bit 16 (uint j)"
    by (simp add: unsigned_ucast_eq)
  also have "\<dots> = uint j" using b by (simp add: take_bit_int_eq_self)
  finally have u: "uint (ucast j :: int16) = uint j" .
  have "sint (ucast j :: int16) = signed_take_bit 15 (uint (ucast j :: int16))"
    by (simp add: sint_uint)
  also have "\<dots> = uint j"
  proof -
    have lo: "- (2 ^ 15) \<le> uint j" by (rule order_trans [of _ 0]) simp_all
    have hi: "uint j < 2 ^ 15" using b by simp
    show ?thesis unfolding u by (rule signed_take_bit_int_eq_self [OF lo hi])
  qed
  finally show ?thesis .
qed

lemma byte_below_limit: "ucast (j :: byte) \<le>s (32767 :: int16)"
  using uint_lt2p [of j] by (simp add: word_sle_eq sint_ucast_byte)

lemma run_loop_unlimited:
  "run_loop 32767 st i first op n obs = Some (op', r, m) \<Longrightarrow> r \<noteq> Limit"
  by (induction obs arbitrary: i first op n) (auto simp: byte_below_limit split: if_splits)

lemma run_loop_passes:
  "list_all (passes st) obs \<Longrightarrow> run_loop 32767 st i first op n obs = None"
  by (induction obs arbitrary: i first op n) (auto simp: byte_below_limit passes_def)

lemma run_loop_opcode:
  "run_loop lim st i first op n obs = Some (op', r, m) \<Longrightarrow>
     n \<le> m \<and> (r = Halt \<longrightarrow> op' = hlt) \<and> (r \<noteq> Halt \<and> (n < m \<or> op \<noteq> hlt) \<longrightarrow> op' \<noteq> hlt)"
proof (induction obs arbitrary: i first op n)
  case Nil
  then show ?case by (auto split: if_splits)
next
  case (Cons ob obs)
  show ?case
  proof (cases "\<not> (ucast (i + 1) \<le>s lim) \<or> (\<not> first \<and> breakpoint_hit (num_breakpoints st) (obs_pc ob) (breakpoints st) 0 10)
      \<or> \<not> obs_rx ob \<or> obs_opcode ob = hlt")
    case True
    with Cons.prems show ?thesis by (auto split: if_splits)
  next
    case False
    with Cons.prems have "run_loop lim st (i + 1) False (obs_opcode ob) (Suc n) obs = Some (op', r, m)"
      by (auto split: if_splits)
    from Cons.IH [OF this] False show ?thesis by auto
  qed
qed

lemma breakpoint_hit_none: "unat nb = 0 \<Longrightarrow> breakpoint_hit nb pc bps k m = False"
  by (cases m) simp_all

lemma quiet_passes: "passes quiet_state idle_observation"
  by (simp add: passes_def quiet_state_def reset_state_def idle_observation_def hlt_def
      breakpoint_hit_none)

lemmas obs_defs = idle_observation_def serial_observation_def halt_observation_def hlt_def

lemma quiet_runs:
  "run_stop 5 0 [serial_observation] quiet_state = Some (HostInput, 0)"
  "run_stop 5 0 [halt_observation] quiet_state = Some (Halt, 0)"
  "run_stop 5 0 [idle_observation, halt_observation] quiet_state = Some (Halt, 1)"
  "run_stop 1 0 [idle_observation, idle_observation] quiet_state = Some (Limit, 1)"
  "run_stop (- 1) 0 [idle_observation, halt_observation] quiet_state = Some (Halt, 1)"
  by (simp_all add: run_stop_def obs_defs quiet_state_def reset_state_def breakpoint_hit_none
      word_sle_eq word_sless_alt)

lemma quiet_nb: "unat (num_breakpoints quiet_state) = 0"
  by (simp add: quiet_state_def reset_state_def)

lemma quiet_results:
  "map_option fst (run 5 0 [serial_observation] False quiet_state) = Some False"
  "map_option fst (run 5 0 [halt_observation] True quiet_state) = Some False"
  by (simp_all add: run_def run_exit_def obs_defs breakpoint_hit_none quiet_nb
      word_sle_eq word_sless_alt)

section \<open>C3: running without a limit\<close>

text \<open>
  C3, as the code has it. A negative \<open>num_instructions\<close> is replaced by 32767, a
  value the 8-bit instruction counter never exceeds, so the limit never ends the loop:
  a call that stops has stopped at a breakpoint, for serial activity or at the halt
  opcode, and as long as the target shows none of the three the call keeps running,
  for any number of instructions.
\<close>

theorem run_negative_unlimited:
  assumes "num_instructions <s 0"
  shows "(run_stop num_instructions opcode0 obs st = Some (r, m) \<longrightarrow>
            r = Breakpoint \<or> r = HostInput \<or> r = Halt) \<and>
         (list_all (passes st) obs \<longrightarrow>
            run num_instructions opcode0 obs rx_final st = None \<and>
            run_stop num_instructions opcode0 obs st = None)"
proof -
  have "r \<noteq> Limit" if "run_stop num_instructions opcode0 obs st = Some (r, m)"
  proof -
    from that assms obtain op' where "run_loop 32767 st 0 True opcode0 0 obs = Some (op', r, m)"
      by (auto simp: run_stop_def)
    then show ?thesis by (rule run_loop_unlimited)
  qed
  then have stop: "run_stop num_instructions opcode0 obs st = Some (r, m) \<longrightarrow>
            r = Breakpoint \<or> r = HostInput \<or> r = Halt"
    by (cases r) auto
  have "run num_instructions opcode0 obs rx_final st = None \<and>
        run_stop num_instructions opcode0 obs st = None" if "list_all (passes st) obs"
    using run_loop_passes [OF that] assms by (simp add: run_def run_stop_def)
  with stop show ?thesis by blast
qed

theorem run_negative_unlimited_witness:
  "(- 1 :: int16) <s 0 \<and>
   run_stop (- 1) 0 [idle_observation, halt_observation] quiet_state = Some (Halt, 1) \<and>
   list_all (passes quiet_state) [idle_observation, idle_observation] \<and>
   run (- 1) 0 [idle_observation, idle_observation] True quiet_state = None"
proof -
  have n: "(- 1 :: int16) <s 0" by (simp add: word_sless_alt)
  have p: "list_all (passes quiet_state) [idle_observation, idle_observation]"
    by (simp add: quiet_passes)
  from run_negative_unlimited [OF n, of 0 "[idle_observation, idle_observation]" quiet_state _ _ True]
    n p quiet_runs(5)
  show ?thesis by simp
qed

text \<open>
  The claim as stated fails: the count of instructions in one call is not capped.
  After 40000 instructions that stop nothing, more than 32767, a call with the
  argument \<open>-1\<close> is still in its loop.
\<close>

theorem run_negative_unbounded_counterexample:
  "(- 1 :: int16) <s 0 \<and>
   (32767 :: nat) < length (replicate 40000 idle_observation) \<and>
   run (- 1) 0 (replicate 40000 idle_observation) True quiet_state = None \<and>
   run_stop (- 1) 0 (replicate 40000 idle_observation) quiet_state = None"
proof -
  have n: "(- 1 :: int16) <s 0" by (simp add: word_sless_alt)
  have "list_all (passes quiet_state) (replicate 40000 idle_observation)"
    by (simp add: list_all_iff quiet_passes)
  from run_loop_passes [OF this] n show ?thesis by (simp add: run_def run_stop_def)
qed

section \<open>C4: what run returns\<close>

text \<open>
  C4, as the code has it. \<open>run\<close> returns a truth value. For a call whose loop has
  stopped: when it stopped for serial activity and the RX line is still low after the
  loop, the result is false and nothing is printed; when it stopped at the halt opcode
  (RX high), the result is false and the halt message is printed; when it stopped at
  the limit or at a breakpoint (RX high, and at least one instruction has run or the
  uninitialised opcode variable does not hold the halt opcode), the result is true.
\<close>

theorem run_result_boolean:
  assumes "run_stop num_instructions opcode0 obs st = Some (r, m)"
  shows "(r = HostInput \<and> \<not> rx_final \<longrightarrow>
            run num_instructions opcode0 obs rx_final st = Some (False, st)) \<and>
         (r = Halt \<and> rx_final \<longrightarrow>
            run num_instructions opcode0 obs rx_final st =
              Some (False, Serial_println ''Stopped at HLT instruction.'' st)) \<and>
         ((r = Limit \<or> r = Breakpoint) \<and> rx_final \<and> (0 < m \<or> opcode0 \<noteq> hlt) \<longrightarrow>
            run num_instructions opcode0 obs rx_final st = Some (True, st))"
proof -
  let ?n = "if num_instructions <s 0 then 32767 else num_instructions"
  from assms obtain op' where l: "run_loop ?n st 0 True opcode0 0 obs = Some (op', r, m)"
    by (auto simp: run_stop_def)
  then have r: "run num_instructions opcode0 obs rx_final st = Some (run_exit op' rx_final st)"
    by (simp add: run_def)
  from run_loop_opcode [OF l]
  have o: "r = Halt \<longrightarrow> op' = hlt" "r \<noteq> Halt \<and> (0 < m \<or> opcode0 \<noteq> hlt) \<longrightarrow> op' \<noteq> hlt"
    by blast+
  show ?thesis unfolding r using o by (auto simp: run_exit_def)
qed

theorem run_result_boolean_witness:
  "run_stop 5 0 [serial_observation] quiet_state = Some (HostInput, 0) \<and>
   run 5 0 [serial_observation] False quiet_state = Some (False, quiet_state) \<and>
   run_stop 5 0 [idle_observation, halt_observation] quiet_state = Some (Halt, 1) \<and>
   run 5 0 [idle_observation, halt_observation] True quiet_state =
     Some (False, Serial_println ''Stopped at HLT instruction.'' quiet_state) \<and>
   run_stop 1 0 [idle_observation, idle_observation] quiet_state = Some (Limit, 1) \<and>
   run 1 0 [idle_observation, idle_observation] True quiet_state = Some (True, quiet_state)"
  using run_result_boolean [OF quiet_runs(1), of False]
    run_result_boolean [OF quiet_runs(3), of True]
    run_result_boolean [OF quiet_runs(4), of True]
  by (simp add: quiet_runs)

text \<open>
  The claim as stated fails: a call stopped by serial activity and a call stopped at
  the halt opcode stop for different reasons and return the same value, false.
\<close>

theorem run_result_two_valued_counterexample:
  "run_stop 5 0 [serial_observation] quiet_state = Some (HostInput, 0) \<and>
   run_stop 5 0 [halt_observation] quiet_state = Some (Halt, 0) \<and>
   HostInput \<noteq> Halt \<and>
   map_option fst (run 5 0 [serial_observation] False quiet_state) = Some False \<and>
   map_option fst (run 5 0 [halt_observation] True quiet_state) = Some False"
  by (simp add: quiet_runs quiet_results)

section \<open>Breakpoint lemmas\<close>

lemma find_breakpoint_range: "j \<le> find_breakpoint bps n a j \<and> find_breakpoint bps n a j \<le> j + n"
  by (induction bps n a j rule: find_breakpoint.induct) auto

lemma find_breakpoint_found:
  "find_breakpoint bps n a j < j + n \<Longrightarrow> bps ! find_breakpoint bps n a j = a"
  by (induction bps n a j rule: find_breakpoint.induct) (auto split: if_splits)

lemma find_breakpoint_none:
  "find_breakpoint bps n a j = j + n \<longleftrightarrow> (\<forall>k. j \<le> k \<and> k < j + n \<longrightarrow> bps ! k \<noteq> a)"
proof (induction bps n a j rule: find_breakpoint.induct)
  case (1 bps a j)
  then show ?case by auto
next
  case (2 bps n a j)
  have r: "j \<le> find_breakpoint bps (Suc n) a j" using find_breakpoint_range by blast
  show ?case
  proof (cases "bps ! j = a")
    case True
    then show ?thesis by auto
  next
    case False
    with 2 have "find_breakpoint bps (Suc n) a j = j + Suc n \<longleftrightarrow>
       (\<forall>k. Suc j \<le> k \<and> k < Suc j + n \<longrightarrow> bps ! k \<noteq> a)" by simp
    also have "\<dots> \<longleftrightarrow> (\<forall>k. j \<le> k \<and> k < j + Suc n \<longrightarrow> bps ! k \<noteq> a)"
    proof (intro iffI allI impI)
      fix k
      assume h: "\<forall>k. Suc j \<le> k \<and> k < Suc j + n \<longrightarrow> bps ! k \<noteq> a"
        and k: "j \<le> k \<and> k < j + Suc n"
      show "bps ! k \<noteq> a"
      proof (cases "k = j")
        case True
        with False show ?thesis by simp
      next
        case ne: False
        with k have "Suc j \<le> k \<and> k < Suc j + n" by arith
        with h show ?thesis by blast
      qed
    next
      fix k
      assume h: "\<forall>k. j \<le> k \<and> k < j + Suc n \<longrightarrow> bps ! k \<noteq> a"
        and k: "Suc j \<le> k \<and> k < Suc j + n"
      from k have "j \<le> k \<and> k < j + Suc n" by arith
      with h show "bps ! k \<noteq> a" by blast
    qed
    finally show ?thesis .
  qed
qed

lemma find_breakpoint_mem:
  assumes "n \<le> length bps"
  shows "find_breakpoint bps n a 0 < n \<longleftrightarrow> a \<in> set (take n bps)"
proof -
  have "find_breakpoint bps n a 0 < n \<longleftrightarrow> find_breakpoint bps n a 0 \<noteq> 0 + n"
    using find_breakpoint_range [of 0 bps n a] by auto
  also have "\<dots> \<longleftrightarrow> (\<exists>k<n. bps ! k = a)"
    using find_breakpoint_none [of bps n a 0] by auto
  also have "\<dots> \<longleftrightarrow> a \<in> set (take n bps)"
    using assms by (auto simp: in_set_conv_nth)
  finally show ?thesis .
qed

lemmas bp_simps = save_breakpoints_def Serial_println_def Serial_print_def bp_list_def

lemma monitor_b_full:
  "bp_inv st \<Longrightarrow> unat (num_breakpoints st) = 10 \<Longrightarrow> a \<notin> set (bp_list st) \<Longrightarrow>
   monitor_b a st = Serial_println ''Too many breakpoints.'' st"
  using find_breakpoint_mem [of "unat (num_breakpoints st)" "breakpoints st" a]
  by (simp add: monitor_b_def bp_inv_def bp_list_def MAX_BREAKPOINTS_def Let_def)

lemma monitor_b_dup:
  "bp_inv st \<Longrightarrow> a \<in> set (bp_list st) \<Longrightarrow>
   monitor_b a st = Serial_println ''Breakpoint already exists.'' st"
  using find_breakpoint_mem [of "unat (num_breakpoints st)" "breakpoints st" a]
  by (simp add: monitor_b_def bp_inv_def bp_list_def MAX_BREAKPOINTS_def Let_def)

lemma monitor_B_missing:
  "bp_inv st \<Longrightarrow> a \<notin> set (bp_list st) \<Longrightarrow>
   monitor_B a st = Serial_println ''Breakpoint not found.'' st"
  using find_breakpoint_mem [of "unat (num_breakpoints st)" "breakpoints st" a]
  by (simp add: monitor_B_def bp_inv_def bp_list_def MAX_BREAKPOINTS_def Let_def)

lemma unat_Suc_byte: "unat (n :: byte) < 10 \<Longrightarrow> unat (n + 1) = Suc (unat n)"
  by (simp add: unat_word_ariths)

lemma unat_pred_byte: "0 < unat (n :: byte) \<Longrightarrow> unat (n - 1) = unat n - 1"
  by (metis unat_gt_0 unat_minus_one)

lemma monitor_b_added:
  assumes "bp_inv st" "unat (num_breakpoints st) < 10" "a \<notin> set (bp_list st)"
  shows "bp_list (monitor_b a st) = bp_list st @ [a]"
    and "length (breakpoints (monitor_b a st)) = 10"
    and "unat (num_breakpoints (monitor_b a st)) = Suc (unat (num_breakpoints st))"
proof -
  let ?n = "unat (num_breakpoints st)"
  have nf: "\<not> find_breakpoint (breakpoints st) ?n a 0 < ?n"
    using find_breakpoint_mem [of ?n "breakpoints st" a] assms by (simp add: bp_inv_def bp_list_def)
  have eq: "monitor_b a st = save_breakpoints
                     (Serial_println (dec2hex a)
                        (Serial_print ''Added breakpoint at: ''
                           (st\<lparr>breakpoints := (breakpoints st)[?n := a],
                               num_breakpoints := num_breakpoints st + 1\<rparr>)))"
    using nf assms(2) by (simp add: monitor_b_def Let_def MAX_BREAKPOINTS_def)
  show "unat (num_breakpoints (monitor_b a st)) = Suc ?n"
    using assms(2) by (simp add: eq bp_simps unat_Suc_byte)
  show "length (breakpoints (monitor_b a st)) = 10"
    using assms(1) by (simp add: eq bp_simps bp_inv_def)
  show "bp_list (monitor_b a st) = bp_list st @ [a]"
    using assms(1,2) by (simp add: eq bp_simps unat_Suc_byte bp_inv_def take_Suc_conv_app_nth)
qed

lemma monitor_B_removed:
  assumes "bp_inv st" "a \<in> set (bp_list st)"
  shows "set (bp_list (monitor_B a st)) = set (bp_list st) - {a}"
    and "distinct (bp_list (monitor_B a st))"
    and "length (breakpoints (monitor_B a st)) = 10"
    and "unat (num_breakpoints (monitor_B a st)) = unat (num_breakpoints st) - 1"
proof -
  let ?n = "unat (num_breakpoints st)"
  let ?j = "find_breakpoint (breakpoints st) ?n a 0"
  let ?bps = "breakpoints st"
  have len: "length ?bps = 10" "?n \<le> 10" and dist: "distinct (take ?n ?bps)"
    using assms(1) by (simp_all add: bp_inv_def bp_list_def)
  have f: "?j < ?n"
    using find_breakpoint_mem [of ?n ?bps a] assms len by (simp add: bp_list_def)
  then have npos: "0 < ?n" by simp
  have ja: "?bps ! ?j = a" using find_breakpoint_found [of ?bps ?n a 0] f by simp
  have eq: "monitor_B a st = save_breakpoints
                (Serial_println (dec2hex a)
                   (Serial_print ''Removed breakpoint at: ''
                      (st\<lparr>breakpoints := ?bps[?j := ?bps ! (?n - 1)],
                          num_breakpoints := num_breakpoints st - 1\<rparr>)))"
    using f by (simp add: monitor_B_def Let_def)
  have n1: "unat (num_breakpoints st - 1) = ?n - 1" using npos by (rule unat_pred_byte)
  show "unat (num_breakpoints (monitor_B a st)) = ?n - 1"
    by (simp add: eq bp_simps n1)
  show "length (breakpoints (monitor_B a st)) = 10"
    using len by (simp add: eq bp_simps)
  have l: "bp_list (monitor_B a st) = take (?n - 1) (?bps[?j := ?bps ! (?n - 1)])"
    by (simp add: eq bp_simps n1)
  define xs where "xs = take (?n - 1) ?bps"
  define y where "y = ?bps ! (?n - 1)"
  have tk: "take ?n ?bps = xs @ [y]"
    using npos len by (simp add: xs_def y_def take_Suc_conv_app_nth [symmetric])
  have dxs: "distinct xs" "y \<notin> set xs" using dist tk by simp_all
  have lxs: "length xs = ?n - 1" using len by (simp add: xs_def)
  have "bp_list (monitor_B a st) = xs[?j := y]"
    unfolding l xs_def y_def by (rule take_update_swap)
  then have l2: "bp_list (monitor_B a st) = (if ?j < ?n - 1 then xs[?j := y] else xs)"
    using lxs by (simp add: list_update_beyond)
  show "distinct (bp_list (monitor_B a st))"
    using dxs by (simp add: l2 distinct_list_update)
  have old: "set (bp_list st) = insert y (set xs)"
    by (simp add: bp_list_def tk)
  show "set (bp_list (monitor_B a st)) = set (bp_list st) - {a}"
  proof (cases "?j < ?n - 1")
    case True
    then have xa: "xs ! ?j = a" using ja by (simp add: xs_def)
    have jl: "?j < length xs" using True lxs by simp
    have new: "set (xs[?j := y]) = insert y (set xs - {a})"
      using jl dxs(1) xa by (simp add: set_update_distinct)
    have "a \<in> set xs" using jl xa nth_mem by fastforce
    with dxs(2) have "y \<noteq> a" by blast
    then have "insert y (set xs - {a}) = insert y (set xs) - {a}" by blast
    with new old True show ?thesis by (simp add: l2)
  next
    case False
    with f have "?j = ?n - 1" by simp
    with ja have "y = a" by (simp add: y_def)
    with dxs(2) have "set xs = insert y (set xs) - {a}" by blast
    with old False show ?thesis by (simp add: l2)
  qed
qed

lemma monitor_B_all_list: "bp_list (monitor_B_all st) = []" "length (breakpoints (monitor_B_all st)) = length (breakpoints st)"
  "num_breakpoints (monitor_B_all st) = 0"
  by (simp_all add: monitor_B_all_def bp_simps)

lemma println_bp [simp]: "bp_inv (Serial_println s st) = bp_inv st"
  by (simp add: bp_inv_def bp_simps)

lemma bp_step_inv: "bp_inv st \<Longrightarrow> bp_inv (bp_step c st)"
proof (cases c)
  case (Add a)
  assume i: "bp_inv st"
  show ?thesis
  proof (cases "a \<in> set (bp_list st)")
    case True
    then show ?thesis using i Add by (simp add: monitor_b_dup)
  next
    case False
    show ?thesis
    proof (cases "unat (num_breakpoints st) < 10")
      case True
      from i have "distinct (bp_list st)" by (simp add: bp_inv_def)
      with monitor_b_added [OF i True False] show ?thesis
        using Add False True by (simp add: bp_inv_def)
    next
      case f: False
      with i have "unat (num_breakpoints st) = 10" by (simp add: bp_inv_def)
      then show ?thesis using i Add False by (simp add: monitor_b_full)
    qed
  qed
next
  case (Remove a)
  assume i: "bp_inv st"
  show ?thesis
  proof (cases "a \<in> set (bp_list st)")
    case True
    from i have "unat (num_breakpoints st) \<le> 10" by (simp add: bp_inv_def)
    with monitor_B_removed(2-4) [OF i True] show ?thesis
      using Remove by (simp add: bp_inv_def)
  next
    case False
    then show ?thesis using i Remove by (simp add: monitor_B_missing)
  qed
next
  case RemoveAll
  assume i: "bp_inv st"
  then show ?thesis using RemoveAll monitor_B_all_list [of st] by (simp add: bp_inv_def)
qed

lemma bp_fold_inv: "bp_inv st \<Longrightarrow> bp_inv (fold bp_step cmds st)"
  by (induction cmds arbitrary: st) (simp_all add: bp_step_inv)

lemma reset_inv: "bp_inv (reset_state ee t)"
  by (simp add: bp_inv_def reset_state_def bp_list_def)

lemma full_inv: "bp_inv full_state"
  by (simp add: bp_inv_def full_state_def reset_state_def bp_list_def)

lemma full_list: "bp_list full_state = [0, 1, 2, 3, 4, 5, 6, 7, 8, 9]"
  by (simp add: full_state_def reset_state_def bp_list_def)

lemma fold_update_upt:
  "n \<le> length xs \<Longrightarrow> fold (\<lambda>i b. b[i := f i]) [0..<n] xs = map f [0..<n] @ drop n xs"
proof (induction n)
  case 0
  then show ?case by simp
next
  case (Suc n)
  then have "fold (\<lambda>i b. b[i := f i]) [0..<Suc n] xs = (map f [0..<n] @ drop n xs)[n := f n]"
    by simp
  also have "\<dots> = map f [0..<n] @ (drop n xs)[0 := f n]"
    by (simp add: list_update_append)
  also have "(drop n xs)[0 := f n] = f n # drop (Suc n) xs"
    using Suc.prems by (simp add: Cons_nth_drop_Suc [symmetric])
  finally show ?case by simp
qed

lemma stored_list_eq:
  "stored_list ee =
     (if unat (ee 1022) \<le> 10 then map (\<lambda>i. ee (1021 - i)) [0..<unat (ee 1022)] else [])"
  by (simp add: stored_list_def load_breakpoints_def EEPROM_read_def MAX_BREAKPOINTS_def
      Let_def bp_list_def reset_state_def fold_update_upt)

lemma writes_values:
  "k \<le> 1021 \<Longrightarrow>
   EEPROM_writes (map (\<lambda>i. (1021 - i, f i)) [0..<k]) ee x =
     (if 1021 - k < x \<and> x \<le> 1021 then f (1021 - x) else ee x)"
proof (induction k arbitrary: x)
  case 0
  then show ?case by (auto simp: EEPROM_writes_def)
next
  case (Suc k)
  then have ih: "EEPROM_writes (map (\<lambda>i. (1021 - i, f i)) [0..<k]) ee x =
     (if 1021 - k < x \<and> x \<le> 1021 then f (1021 - x) else ee x)" for x by simp
  have "EEPROM_writes (map (\<lambda>i. (1021 - i, f i)) [0..<Suc k]) ee
      = (EEPROM_writes (map (\<lambda>i. (1021 - i, f i)) [0..<k]) ee)(1021 - k := f k)"
    by (simp add: EEPROM_writes_def EEPROM_write_def)
  then show ?case using Suc.prems by (auto simp: ih)
qed

lemma writes_append:
  "EEPROM_writes (ws @ vs) ee = EEPROM_writes vs (EEPROM_writes ws ee)"
  by (simp add: EEPROM_writes_def)

lemma save_stored:
  assumes "unat (num_breakpoints s) \<le> 10" and True: "length (breakpoints s) = 10"
  shows "stored_list (eeprom (save_breakpoints s)) = bp_list s"
proof -
  let ?n = "unat (num_breakpoints s)"
  let ?ee = "eeprom (save_breakpoints s)"
  have e: "?ee = (EEPROM_writes (map (\<lambda>i. (1021 - i, breakpoints s ! i)) [0..<?n]) (eeprom s))
                   (1022 := num_breakpoints s)"
    by (simp add: save_breakpoints_def save_breakpoints_writes_def writes_append)
       (simp add: EEPROM_writes_def EEPROM_write_def)
  have c: "?ee 1022 = num_breakpoints s" by (simp add: e)
  have v: "?ee (1021 - i) = breakpoints s ! i" if "i < ?n" for i
  proof -
    have a: "1021 - ?n < 1021 - i" "1021 - i \<le> 1021" "1021 - (1021 - i) = i"
      "1021 - i \<noteq> 1022" "?n \<le> 1021"
      using that assms by arith+
    show ?thesis unfolding e using a(1-4) by (simp add: writes_values [OF a(5)])
  qed
  have "map (\<lambda>i. ?ee (1021 - i)) [0..<?n] = map (\<lambda>i. breakpoints s ! i) [0..<?n]"
    using v by simp
  also have "\<dots> = take ?n (breakpoints s)"
    using assms True by (simp add: list_eq_iff_nth_eq)
  finally show ?thesis using assms by (simp add: stored_list_eq c bp_list_def)
qed


lemma save_bp_list: "bp_list (save_breakpoints s) = bp_list s"
  by (simp add: bp_simps)

lemma bp_step_shape:
  "(\<exists>msg. bp_step c st = Serial_println msg st) \<or> (\<exists>s'. bp_step c st = save_breakpoints s')"
  by (cases c) (auto simp: monitor_b_def monitor_B_def monitor_B_all_def Let_def)

lemma bp_step_stored:
  assumes "bp_inv st" "stored_list (eeprom st) = bp_list st"
  shows "stored_list (eeprom (bp_step c st)) = bp_list (bp_step c st)"
proof -
  have inv: "bp_inv (bp_step c st)" using assms(1) by (rule bp_step_inv)
  from bp_step_shape [of c st] show ?thesis
  proof
    assume "\<exists>msg. bp_step c st = Serial_println msg st"
    then show ?thesis using assms(2) by (auto simp: bp_simps)
  next
    assume "\<exists>s'. bp_step c st = save_breakpoints s'"
    then obtain s' where s': "bp_step c st = save_breakpoints s'" by blast
    with inv have "unat (num_breakpoints s') \<le> 10" "length (breakpoints s') = 10"
      by (simp_all add: bp_inv_def bp_simps)
    then show ?thesis unfolding s' save_bp_list by (rule save_stored)
  qed
qed

lemma add_prefix:
  assumes inv: "bp_inv st" and st: "stored_list (eeprom st) = bp_list st"
    and new: "a \<notin> set (bp_list st)" and room: "length (bp_list st) < 10"
    and k: "k < length (save_breakpoints_writes (monitor_b a st))"
  shows "stored_list (EEPROM_writes (take k (save_breakpoints_writes (monitor_b a st))) (eeprom st))
         = bp_list st"
proof -
  let ?n = "unat (num_breakpoints st)"
  let ?bps = "breakpoints st"
  let ?ee = "eeprom st"
  have len: "length ?bps = 10" "?n \<le> 10" using inv by (simp_all add: bp_inv_def)
  have n: "?n < 10" using room len by (simp add: bp_list_def)
  note added = monitor_b_added [OF inv n new]
  have nf: "\<not> find_breakpoint ?bps ?n a 0 < ?n"
    using find_breakpoint_mem [of ?n ?bps a] new len by (simp add: bp_list_def)
  have bps': "breakpoints (monitor_b a st) = ?bps[?n := a]"
    using nf n by (simp add: monitor_b_def Let_def MAX_BREAKPOINTS_def bp_simps)
  let ?f = "\<lambda>i. ?bps[?n := a] ! i"
  have ws: "save_breakpoints_writes (monitor_b a st) =
      map (\<lambda>i. (1021 - i, ?f i)) [0..<Suc ?n] @ [(1022, num_breakpoints (monitor_b a st))]"
    by (simp add: save_breakpoints_writes_def added(3) bps' del: upt_Suc)
  have kn: "k \<le> Suc ?n" using k by (simp add: ws del: upt_Suc)
  have tk: "take k (save_breakpoints_writes (monitor_b a st)) = map (\<lambda>i. (1021 - i, ?f i)) [0..<k]"
    using kn by (simp add: ws take_map take_upt del: upt_Suc)
  let ?eek = "EEPROM_writes (map (\<lambda>i. (1021 - i, ?f i)) [0..<k]) ?ee"
  have k1021: "k \<le> 1021" using kn n by simp
  have c: "?eek 1022 = ?ee 1022" by (simp add: writes_values [OF k1021])
  show ?thesis
  proof (cases "unat (?ee 1022) \<le> 10")
    case False
    then show ?thesis using st by (simp add: tk stored_list_eq c)
  next
    case True
    with st have m: "map (\<lambda>i. ?ee (1021 - i)) [0..<unat (?ee 1022)] = take ?n ?bps"
      by (simp add: stored_list_eq bp_list_def)
    from arg_cong [OF m, of length] len have cn: "unat (?ee 1022) = ?n" by simp
    have old: "?ee (1021 - i) = ?bps ! i" if "i < ?n" for i
      using arg_cong [OF m, of "\<lambda>xs. xs ! i"] that cn by simp
    have v: "?eek (1021 - i) = ?bps ! i" if "i < ?n" for i
    proof -
      have a: "1021 - (1021 - i) = i" "1021 - i \<le> 1021" using that n by arith+
      show ?thesis using that old [OF that] a by (simp add: writes_values [OF k1021])
    qed
    have "map (\<lambda>i. ?eek (1021 - i)) [0..<?n] = map (\<lambda>i. ?bps ! i) [0..<?n]"
      using v by simp
    also have "\<dots> = take ?n ?bps" using len by (simp add: list_eq_iff_nth_eq)
    finally show ?thesis using True cn by (simp add: tk stored_list_eq c bp_list_def)
  qed
qed

lemma three_find: "find_breakpoint [1, 2, 3, 0, 0, 0, 0, 0, 0, 0] 3 1 0 = 0"
  by (simp add: numeral_3_eq_3)

lemma three_eval:
  "stored_list (eeprom three_state) = [1, 2, 3]"
  "save_breakpoints_writes (monitor_B 1 three_state) = [(1021, 3), (1020, 2), (1022, 2)]"
  "bp_list three_state = [1,2,3]"
  "bp_list (monitor_B 1 three_state) = [3, 2]"
  "stored_list (EEPROM_writes (take 1 (save_breakpoints_writes (monitor_B 1 three_state))) (eeprom three_state)) = [3, 2, 3]"
  by (simp_all add: three_state_def reset_state_def save_breakpoints_def save_breakpoints_writes_def
   EEPROM_writes_def EEPROM_write_def stored_list_eq target0_def upt_rec monitor_B_def Let_def bp_simps three_find)

lemma three_inv: "bp_inv three_state"
  by (simp add: bp_inv_def three_state_def reset_state_def bp_simps)

lemma three_find7: "find_breakpoint [1, 2, 3, 0, 0, 0, 0, 0, 0, 0] 3 7 0 = 3"
  by (simp add: numeral_3_eq_3)

lemma three_add7:
  "length (save_breakpoints_writes (monitor_b 7 three_state)) = 5"
  by (simp add: three_state_def reset_state_def save_breakpoints_writes_def monitor_b_def
      Let_def bp_simps three_find7 MAX_BREAKPOINTS_def)

section \<open>C5: the breakpoint set\<close>

text \<open>
  C5. From every state whose breakpoint set has at most 10 entries and no duplicates
  (the state after reset is one), every sequence of add, remove and remove-all
  commands leads to such a state again. Adding a value that is not in a set of 10
  entries only prints the capacity message, adding a value that is in the set only
  prints that it exists already, and removing a value that is not in the set only
  prints that it was not found: the state returned differs from the old one in the
  serial output alone, and so the set and the EEPROM are unchanged.
\<close>

theorem breakpoint_set_invariant:
  assumes "bp_inv st"
  shows "bp_inv (fold bp_step cmds st) \<and>
         length (bp_list (fold bp_step cmds st)) \<le> 10 \<and>
         distinct (bp_list (fold bp_step cmds st)) \<and>
         (length (bp_list st) = 10 \<and> a \<notin> set (bp_list st) \<longrightarrow>
            monitor_b a st = Serial_println ''Too many breakpoints.'' st) \<and>
         (a \<in> set (bp_list st) \<longrightarrow>
            monitor_b a st = Serial_println ''Breakpoint already exists.'' st) \<and>
         (a \<notin> set (bp_list st) \<longrightarrow>
            monitor_B a st = Serial_println ''Breakpoint not found.'' st) \<and>
         bp_list (Serial_println msg st) = bp_list st \<and>
         eeprom (Serial_println msg st) = eeprom st \<and>
         bp_inv (reset_state ee t)"
proof -
  have inv: "bp_inv (fold bp_step cmds st)" using assms by (rule bp_fold_inv)
  then have b: "length (bp_list (fold bp_step cmds st)) \<le> 10"
    "distinct (bp_list (fold bp_step cmds st))"
    by (simp_all add: bp_inv_def bp_list_def)
  have len: "length (bp_list st) = unat (num_breakpoints st)"
    using assms by (simp add: bp_inv_def bp_list_def)
  have full: "length (bp_list st) = 10 \<and> a \<notin> set (bp_list st) \<longrightarrow>
            monitor_b a st = Serial_println ''Too many breakpoints.'' st"
    using monitor_b_full [OF assms] len by simp
  have dup: "a \<in> set (bp_list st) \<longrightarrow>
            monitor_b a st = Serial_println ''Breakpoint already exists.'' st"
    using monitor_b_dup [OF assms] by simp
  have missing: "a \<notin> set (bp_list st) \<longrightarrow>
            monitor_B a st = Serial_println ''Breakpoint not found.'' st"
    using monitor_B_missing [OF assms] by simp
  have same: "bp_list (Serial_println msg st) = bp_list st"
    "eeprom (Serial_println msg st) = eeprom st"
    by (simp_all add: bp_simps)
  from inv b full dup missing same reset_inv show ?thesis by blast
qed

theorem breakpoint_set_invariant_witness:
  "bp_inv full_state \<and>
   length (bp_list full_state) = 10 \<and> 11 \<notin> set (bp_list full_state) \<and>
   3 \<in> set (bp_list full_state) \<and>
   monitor_b 11 full_state = Serial_println ''Too many breakpoints.'' full_state \<and>
   monitor_b 3 full_state = Serial_println ''Breakpoint already exists.'' full_state \<and>
   monitor_B 11 full_state = Serial_println ''Breakpoint not found.'' full_state \<and>
   distinct (bp_list (fold bp_step [Remove 3, Add 11, Add 12] full_state))"
  using breakpoint_set_invariant [OF full_inv, of "[Remove 3, Add 11, Add 12]" 11]
    breakpoint_set_invariant [OF full_inv, of "[]" 3]
  by (simp add: full_inv full_list)

section \<open>C6: persisting the breakpoint set\<close>

text \<open>
  C6, as the code has it. \<open>save_breakpoints\<close> writes the values first, from address
  1021 downwards, and the count last, at address 1022. For a state whose set is
  well-formed and is what the EEPROM holds: after every add, remove or remove-all
  command the EEPROM loads as the set the command leaves; while an add that changes
  the set is being written, the EEPROM after any proper prefix of its writes still
  loads as the old set; a remove-all is the single write of the count 0. Nothing is
  said about the prefixes of a remove.
\<close>

theorem breakpoints_persisted:
  assumes "bp_inv st" and "stored_list (eeprom st) = bp_list st"
  shows "fst (last (save_breakpoints_writes s)) = 1022 \<and>
         snd (last (save_breakpoints_writes s)) = num_breakpoints s \<and>
         list_all (\<lambda>w. fst w < 1022) (butlast (save_breakpoints_writes s)) \<and>
         stored_list (eeprom (bp_step c st)) = bp_list (bp_step c st) \<and>
         (a \<notin> set (bp_list st) \<and> length (bp_list st) < 10 \<and>
          k < length (save_breakpoints_writes (monitor_b a st)) \<longrightarrow>
            stored_list (EEPROM_writes (take k (save_breakpoints_writes (monitor_b a st)))
                           (eeprom st)) = bp_list st) \<and>
         save_breakpoints_writes (monitor_B_all st) = [(1022, 0)] \<and>
         eeprom (monitor_B_all st) = EEPROM_writes [(1022, 0)] (eeprom st)"
proof -
  have order: "fst (last (save_breakpoints_writes s)) = 1022"
    "snd (last (save_breakpoints_writes s)) = num_breakpoints s"
    "list_all (\<lambda>w. fst w < 1022) (butlast (save_breakpoints_writes s))"
    by (auto simp: save_breakpoints_writes_def list_all_iff)
  have complete: "stored_list (eeprom (bp_step c st)) = bp_list (bp_step c st)"
    using assms by (rule bp_step_stored)
  have prefix: "a \<notin> set (bp_list st) \<and> length (bp_list st) < 10 \<and>
          k < length (save_breakpoints_writes (monitor_b a st)) \<longrightarrow>
            stored_list (EEPROM_writes (take k (save_breakpoints_writes (monitor_b a st)))
                           (eeprom st)) = bp_list st"
    using add_prefix [OF assms] by blast
  have clear: "save_breakpoints_writes (monitor_B_all st) = [(1022, 0)]"
    "eeprom (monitor_B_all st) = EEPROM_writes [(1022, 0)] (eeprom st)"
    by (simp_all add: monitor_B_all_def save_breakpoints_writes_def bp_simps)
  from order complete prefix clear show ?thesis by blast
qed

theorem breakpoints_persisted_witness:
  "bp_inv three_state \<and> stored_list (eeprom three_state) = bp_list three_state \<and>
   bp_list three_state = [1, 2, 3] \<and>
   stored_list (eeprom (bp_step (Remove 1) three_state)) = [3, 2] \<and>
   7 \<notin> set (bp_list three_state) \<and> length (bp_list three_state) < 10 \<and>
   2 < length (save_breakpoints_writes (monitor_b 7 three_state)) \<and>
   stored_list (EEPROM_writes (take 2 (save_breakpoints_writes (monitor_b 7 three_state)))
                  (eeprom three_state)) = [1, 2, 3] \<and>
   list_all (\<lambda>w. fst w < 1022) (butlast (save_breakpoints_writes three_state))"
  using breakpoints_persisted [OF three_inv, where c = "Remove 1" and a = 7 and k = 2
      and s = three_state]
  by (simp add: three_eval(1,3,4) three_add7 three_inv)

text \<open>
  The claim as stated fails for a remove. With the breakpoints 1, 2, 3 stored, removing
  1 writes the value 3 to address 1021 first and the count 2 last. After the first
  write the EEPROM holds the count 3 with the values 3, 2, 3: neither the old set nor
  the new one, and with a duplicate.
\<close>

theorem remove_prefix_counterexample:
  "bp_inv three_state \<and>
   stored_list (eeprom three_state) = [1, 2, 3] \<and>
   bp_list (monitor_B 1 three_state) = [3, 2] \<and>
   save_breakpoints_writes (monitor_B 1 three_state) = [(1021, 3), (1020, 2), (1022, 2)] \<and>
   stored_list (EEPROM_writes (take 1 (save_breakpoints_writes (monitor_B 1 three_state)))
                  (eeprom three_state)) = [3, 2, 3]"
  by (intro conjI three_inv three_eval)

section \<open>Lemmas on the label table\<close>

lemma lookup_Some: "lookup s key n = Some j \<Longrightarrow> j < n \<and> label (labels s ! j) = key"
  by (induction n) (auto simp: lookup_def split: if_splits)

lemma lookup_None: "lookup s key n = None \<Longrightarrow> i < n \<Longrightarrow> label (labels s ! i) \<noteq> key"
  by (induction n) (auto simp: lookup_def less_Suc_eq split: if_splits)

lemma find_label_lookup:
  "find_label lbl llen s =
     (if lookup s (label_key lbl llen) (num_labels s) = None \<and> num_labels s < ASM_MAX_LABELS
      then (Some (num_labels s),
            s\<lparr>labels := (labels s)[num_labels s :=
                           (labels s ! num_labels s)\<lparr>label := label_key lbl llen, forward_count := 0,
                                                     loc := - 1\<rparr>],
              num_labels := num_labels s + 1\<rparr>)
      else (lookup s (label_key lbl llen) (num_labels s), s))"
  by (simp add: find_label_def lookup_def Let_def)

lemma find_label_found:
  assumes "fst (find_label lbl llen s) = Some j"
  shows "j < num_labels (snd (find_label lbl llen s)) \<and>
         (table_ok s \<longrightarrow> label (labels (snd (find_label lbl llen s)) ! j) = label_key lbl llen)"
  using assms lookup_Some [of s "label_key lbl llen" "num_labels s" j]
  by (auto simp: find_label_lookup table_ok_def ASM_MAX_LABELS_def split: if_splits)

lemma find_label_None: "fst (find_label lbl llen s) = None \<Longrightarrow> snd (find_label lbl llen s) = s"
  by (auto simp: find_label_lookup split: if_splits)

lemma find_label_frame:
  "tgt (snd (find_label lbl llen s)) = tgt s \<and> out (snd (find_label lbl llen s)) = out s \<and>
   eeprom (snd (find_label lbl llen s)) = eeprom s \<and>
   num_labels s \<le> num_labels (snd (find_label lbl llen s)) \<and>
   (table_ok s \<longrightarrow> i < num_labels s \<longrightarrow> labels (snd (find_label lbl llen s)) ! i = labels s ! i)"
  by (auto simp: find_label_lookup table_ok_def)

lemma find_label_ok:
  assumes "table_ok s"
  shows "table_ok (snd (find_label lbl llen s))"
proof (cases "lookup s (label_key lbl llen) (num_labels s) = None \<and> num_labels s < ASM_MAX_LABELS")
  case False
  then show ?thesis using assms by (auto simp: find_label_lookup)
next
  case True
  let ?n = "num_labels s"
  let ?key = "label_key lbl llen"
  let ?new = "(labels s ! ?n)\<lparr>label := ?key, forward_count := 0, loc := - 1\<rparr>"
  from assms have len: "length (labels s) = 16" and d: "distinct (map label (take ?n (labels s)))"
    by (simp_all add: table_ok_def)
  from True have n: "?n < 16" by (simp add: ASM_MAX_LABELS_def)
  have fresh: "?key \<notin> set (map label (take ?n (labels s)))"
  proof
    assume "?key \<in> set (map label (take ?n (labels s)))"
    then obtain i where "i < ?n" "label (labels s ! i) = ?key"
      using len n by (auto simp: in_set_conv_nth)
    with lookup_None [of s ?key ?n i] True show False by simp
  qed
  have "take (Suc ?n) ((labels s)[?n := ?new]) = take ?n (labels s) @ [?new]"
    using len n by (simp add: take_Suc_conv_app_nth)
  with d fresh show ?thesis
    using True len n by (simp add: find_label_lookup table_ok_def)
qed

lemma carries_refl: "carries K k s s"
  by (simp add: carries_def keeps_refs_def)

lemma carries_trans: "carries K k s s1 \<Longrightarrow> carries K k s1 s2 \<Longrightarrow> carries K k s s2"
proof -
  assume a: "carries K k s s1" and b: "carries K k s1 s2"
  show ?thesis unfolding carries_def
  proof
    assume h: "table_ok s \<and> pending K k s"
    with a have 1: "table_ok s1" "pending K k s1" "keeps_refs k s s1" by (simp_all add: carries_def)
    with b have 2: "table_ok s2" "pending K k s2" "keeps_refs k s1 s2" by (simp_all add: carries_def)
    let ?n = "forward_count (labels s ! k)"
    let ?n1 = "forward_count (labels s1 ! k)"
    from 1(3) 2(3) have le: "?n \<le> ?n1" "?n1 \<le> forward_count (labels s2 ! k)"
      and t1: "take ?n (forward (labels s1 ! k)) = take ?n (forward (labels s ! k))"
      and t2: "take ?n1 (forward (labels s2 ! k)) = take ?n1 (forward (labels s1 ! k))"
      by (simp_all add: keeps_refs_def)
    from arg_cong [OF t2, of "take ?n"] le(1)
    have "take ?n (forward (labels s2 ! k)) = take ?n (forward (labels s1 ! k))"
      by (simp add: min_def)
    with t1 le have "keeps_refs k s s2" by (simp add: keeps_refs_def)
    with 2 show "table_ok s2 \<and> pending K k s2 \<and> keeps_refs k s s2" by simp
  qed
qed

lemma carries_same: "same_table s s' \<Longrightarrow> carries K k s s'"
  by (simp add: carries_def same_table_def table_ok_def pending_def keeps_refs_def)

lemma same_table_refl [simp]: "same_table s s"
  by (simp add: same_table_def)

lemma same_table_trans: "same_table s s1 \<Longrightarrow> same_table s1 s2 \<Longrightarrow> same_table s s2"
  by (simp add: same_table_def)

lemma same_table_out [simp]:
  "same_table s (Serial_println m s')= same_table s s'"
  "same_table s (Serial_print m s') = same_table s s'"
  by (simp_all add: same_table_def Serial_println_def Serial_print_def)

lemma carries_find: "carries K k s (snd (find_label lbl llen s))"
  unfolding carries_def
proof
  assume h: "table_ok s \<and> pending K k s"
  then have ok: "table_ok s" and k: "k < num_labels s" by (simp_all add: pending_def)
  note f = find_label_frame [of lbl llen s k]
  from f ok k have e: "labels (snd (find_label lbl llen s)) ! k = labels s ! k" by simp
  from f k have k': "k < num_labels (snd (find_label lbl llen s))" by simp
  show "table_ok (snd (find_label lbl llen s)) \<and> pending K k (snd (find_label lbl llen s)) \<and>
        keeps_refs k s (snd (find_label lbl llen s))"
    using h e k' find_label_ok [OF ok] by (simp add: pending_def keeps_refs_def)
qed

lemma map_label_update:
  assumes "label l' = label (ls ! j)"
  shows "map label (take n (ls[j := l'])) = map label (take n ls)"
proof -
  have "map label (ls[j := l']) = (map label ls)[j := label (ls ! j)]"
    using assms by (simp add: map_update)
  also have "\<dots> = map label ls"
    by (cases "j < length ls") (simp_all add: list_update_same_conv list_update_beyond)
  finally show ?thesis by (simp add: take_map [symmetric])
qed

lemma carries_record:
  "carries K k s
     (s\<lparr>labels := (labels s)[j := (labels s ! j)\<lparr>forward := (forward (labels s ! j))
                                                      [forward_count (labels s ! j) := v],
                                                    forward_count := forward_count (labels s ! j) + 1\<rparr>]\<rparr>)"
  unfolding carries_def table_ok_def pending_def keeps_refs_def
  by (cases "j < length (labels s)") (auto simp: map_label_update nth_list_update)

lemma carries_define:
  "j \<noteq> k \<Longrightarrow> label l' = label (labels s ! j) \<Longrightarrow>
   carries K k s (s\<lparr>tgt := t, labels := (labels s)[j := l']\<rparr>)"
  unfolding carries_def table_ok_def pending_def keeps_refs_def
  by (auto simp: map_label_update)

lemma say_st [simp]: "asm_st (say m x) = Serial_println m (asm_st x)"
  by (simp add: say_def)

lemma say_word_st [simp]:
  "asm_st (say_word m w t x) =
     Serial_println [] (Serial_print t (Serial_print w (Serial_print m (asm_st x))))"
  by (simp add: say_word_def)

lemma carries_out:
  "carries K k s s' \<Longrightarrow> carries K k s (Serial_println m s')"
  "carries K k s s' \<Longrightarrow> carries K k s (Serial_print m s')"
  by (simp_all add: carries_def table_ok_def pending_def keeps_refs_def Serial_println_def
      Serial_print_def)

lemma reference_carries:
  "carries K k (asm_st x) (asm_st (snd (snd (asm_reference (find_label lbl llen (asm_st x)) x))))"
proof -
  let ?f = "find_label lbl llen (asm_st x)"
  let ?s1 = "snd ?f"
  have c1: "carries K k (asm_st x) ?s1" by (rule carries_find)
  have "carries K k ?s1 (asm_st (snd (snd (asm_reference ?f x))))"
  proof (cases "fst ?f")
    case None
    then show ?thesis by (simp add: asm_reference_def carries_out carries_refl)
  next
    case (Some j)
    then show ?thesis
      by (simp add: asm_reference_def Let_def carries_out carries_refl carries_record [simplified])
  qed
  with c1 show ?thesis by (rule carries_trans)
qed

lemma offset_frame:
  "same_table (asm_st x) (asm_st (snd (snd (snd (asm_offset buffer i ok arg x)))))"
  by (simp add: asm_offset_def Let_def)

lemma label_ref_carries:
  "carries K k (asm_st x) (asm_st (snd (snd (snd (asm_label_ref buffer i x)))))"
  unfolding asm_label_ref_def Let_def
  by (rule carries_trans [OF reference_carries carries_same [OF offset_frame]])

lemma mnemonic_carries:
  "carries K k (asm_st x) (asm_st (snd (snd (snd (snd (asm_mnemonic buffer i x))))))"
  by (simp add: asm_mnemonic_def Let_def carries_out carries_refl label_ref_carries)

lemma emit_frame: "same_table (asm_st x) (asm_st (asm_emit opcodeIdx arg x))"
  by (simp add: asm_emit_def emit_def Let_def same_table_def)

lemma define_label_st:
  "asm_st (define_label j x) =
     (asm_st x)\<lparr>tgt := fold (patch_forward (asm_a x))
                        (map (\<lambda>i. forward (labels (asm_st x) ! j) ! i)
                             [0..<forward_count (labels (asm_st x) ! j)])
                        (tgt (asm_st x)),
                labels := (labels (asm_st x))[j := (labels (asm_st x) ! j)
                             \<lparr>forward_count := 0, loc := asm_a x\<rparr>]\<rparr>"
  by (simp add: define_label_def Let_def)

lemma label_carries:
  assumes nd: "\<not> line_defines line K"
  shows "carries K k (asm_st x) (asm_st (snd (snd (asm_label (line @ '' '') x))))"
proof (cases "isAlpha (at (line @ '' '') 0)")
  case False
  then show ?thesis by (simp add: asm_label_def Let_def carries_out carries_refl)
next
  case True
  let ?buf = "line @ '' ''"
  let ?i = "scan isAlphaNumeric ?buf (length ?buf) 0"
  let ?f = "find_label ?buf ?i (asm_st x)"
  let ?s1 = "snd ?f"
  from nd True have key: "label_key ?buf ?i \<noteq> K" by (simp add: line_defines_def)
  have c1: "carries K k (asm_st x) ?s1" by (rule carries_find)
  show ?thesis unfolding carries_def
  proof
    assume h: "table_ok (asm_st x) \<and> pending K k (asm_st x)"
    with c1 have h1: "table_ok ?s1" "pending K k ?s1" "keeps_refs k (asm_st x) ?s1"
      by (simp_all add: carries_def)
    have "carries K k ?s1 (asm_st (snd (snd (asm_label ?buf x))))"
    proof (cases "fst ?f")
      case None
      with True show ?thesis by (simp add: asm_label_def Let_def carries_out carries_refl)
    next
      case (Some j)
      from find_label_found [OF Some] h have "label (labels ?s1 ! j) = label_key ?buf ?i" by simp
      with key h1(2) have jk: "j \<noteq> k" by (auto simp: pending_def)
      show ?thesis
        using True Some jk
        by (simp add: asm_label_def Let_def carries_out carries_refl define_label_st carries_define)
    qed
    with c1 have "carries K k (asm_st x) (asm_st (snd (snd (asm_label ?buf x))))"
      by (rule carries_trans)
    with h show "table_ok (asm_st (snd (snd (asm_label ?buf x)))) \<and>
        pending K k (asm_st (snd (snd (asm_label ?buf x)))) \<and>
        keeps_refs k (asm_st x) (asm_st (snd (snd (asm_label ?buf x))))"
      by (simp add: carries_def)
  qed
qed

lemma line_carries:
  assumes nd: "\<not> line_defines line K" and r: "assemble_line line x = Some x'"
  shows "carries K k (asm_st x) (asm_st x')"
proof -
  let ?buf = "line @ '' ''"
  let ?l = "asm_label ?buf x"
  let ?m = "if fst ?l then asm_mnemonic ?buf (fst (snd ?l)) (snd (snd ?l))
            else (False, fst (snd ?l), - 1, 0, snd (snd ?l))"
  let ?x2 = "snd (snd (snd (snd ?m)))"
  have c1: "carries K k (asm_st x) (asm_st (snd (snd ?l)))" using nd by (rule label_carries)
  have c2: "carries K k (asm_st (snd (snd ?l))) (asm_st ?x2)"
    by (simp add: mnemonic_carries carries_refl)
  have c12: "carries K k (asm_st x) (asm_st ?x2)" using c1 c2 by (rule carries_trans)
  have c3: "carries K k (asm_st ?x2) (asm_st x')"
    using r
    by (auto simp: assemble_line_def Let_def carries_out carries_refl
        carries_same [OF emit_frame] intro!: carries_trans [OF _ carries_same [OF emit_frame]]
        split: if_splits)
  from c12 c3 show ?thesis by (rule carries_trans)
qed

lemma lines_carries:
  "list_all (\<lambda>line. \<not> line_defines line K) lines \<Longrightarrow> assemble_lines lines x = Some x' \<Longrightarrow>
   carries K k (asm_st x) (asm_st x')"
proof (induction lines arbitrary: x)
  case Nil
  then show ?case by (simp add: carries_refl)
next
  case (Cons line lines)
  from Cons.prems(2) obtain x1 where l: "assemble_line line x = Some x1"
    and ls: "assemble_lines lines x1 = Some x'"
    by (auto split: option.splits)
  from Cons.prems(1) have nd: "\<not> line_defines line K" "list_all (\<lambda>line. \<not> line_defines line K) lines"
    by simp_all
  from line_carries [OF nd(1) l] Cons.IH [OF nd(2) ls] show ?case by (rule carries_trans)
qed

lemma patch_forward_eq:
  assumes "lines_low t"
  shows "ram (patch_forward a site t) = (ram t)(ucast site := patch_byte a (ram t (ucast site)))"
    and "lines_low (patch_forward a site t)"
  using assms
  by (simp_all add: patch_forward_def patch_byte_def mode_4bit_def lines_low_def read_ram_1 Let_def
      write_ram_def write_ram_body_def line_defs)

lemma patch_fold:
  "lines_low t \<Longrightarrow>
   lines_low (fold (patch_forward a) fs t) \<and>
   ram (fold (patch_forward a) fs t) c AND 0xF0 = ram t c AND 0xF0 \<and>
   ram (fold (patch_forward a) fs t) c AND 0x0F =
     (ram t c + of_nat (count_list (map ucast fs) c) * ucast a) AND 0x0F"
proof (induction fs arbitrary: t)
  case Nil
  then show ?case by simp
next
  case (Cons site fs)
  let ?t1 = "patch_forward a site t"
  let ?n = "count_list (map ucast fs) c"
  note p = patch_forward_eq [OF Cons.prems, of a site]
  from Cons.IH [OF p(2)] have ih: "lines_low (fold (patch_forward a) fs ?t1)"
    "ram (fold (patch_forward a) fs ?t1) c AND 0xF0 = ram ?t1 c AND 0xF0"
    "ram (fold (patch_forward a) fs ?t1) c AND 0x0F = (ram ?t1 c + of_nat ?n * ucast a) AND 0x0F"
    by simp_all
  show ?case
  proof (cases "ucast site = c")
    case True
    have r: "ram ?t1 c = patch_byte a (ram t c)" using True by (simp add: p(1))
    have "(patch_byte a (ram t c) + of_nat ?n * ucast a) AND 0x0F =
          ((ram t c + ucast a) + of_nat ?n * ucast a) AND 0x0F"
      by (rule low_cong) (rule patch_byte_low)
    also have "(ram t c + ucast a) + of_nat ?n * ucast a = ram t c + of_nat (Suc ?n) * ucast a"
      by (simp add: algebra_simps)
    finally show ?thesis using ih True by (simp add: r patch_byte_high)
  next
    case False
    then have "ram ?t1 c = ram t c" by (auto simp: p(1))
    with ih False show ?thesis by simp
  qed
qed

lemma undefined_labels_eq:
  "undefined_labels ls h =
     (case map label_name (filter (\<lambda>l. loc l <s 0) ls) of
        [] \<Rightarrow> []
      | n # ns \<Rightarrow> (if h then CHR 0x0A # ''UNDEFINED LABELS: '' else '','') @ n @
                   concat (map (\<lambda>m. CHR '','' # m) ns))"
  by (induction ls arbitrary: h) (auto split: list.splits)

lemma join_names_eq: "join_names (n # ns) = n @ concat (map (\<lambda>m. CHR '','' # m) ns)"
  by (induction ns arbitrary: n) simp_all

lemma summary_out:
  "asm_addr y <s asm_a y \<Longrightarrow> undefined_names (asm_st y) \<noteq> [] \<Longrightarrow>
   out (asm_st (asm_summary y)) =
     out (asm_st y) @ println (CHR 0x0A # ''UNDEFINED LABELS: '' @ join_names (undefined_names (asm_st y)))"
  by (cases "undefined_names (asm_st y)")
     (simp_all add: asm_summary_def undefined_labels_eq undefined_names_def [symmetric]
        join_names_eq Serial_println_def)

lemma summary_silent: "\<not> asm_addr y <s asm_a y \<Longrightarrow> asm_summary y = y"
  by (simp add: asm_summary_def)

lemma pending_listed:
  assumes "table_ok s" "pending K k s"
  shows "label_name (labels s ! k) \<in> set (undefined_names s)"
proof -
  from assms have k: "k < num_labels s" "num_labels s \<le> length (labels s)" "loc (labels s ! k) <s 0"
    by (simp_all add: table_ok_def pending_def)
  then have "labels s ! k \<in> set (take (num_labels s) (labels s))"
    by (auto simp: in_set_conv_nth intro!: exI [of _ k])
  with k(3) show ?thesis by (auto simp: undefined_names_def)
qed

lemma table_ok_out [simp]:
  "table_ok (Serial_println m s) = table_ok s"
  "table_ok (Serial_print m s) = table_ok s"
  by (simp_all add: table_ok_def Serial_println_def Serial_print_def)

lemma table_ok_same: "same_table s s' \<Longrightarrow> table_ok s \<Longrightarrow> table_ok s'"
  by (simp add: same_table_def table_ok_def)

lemma table_ok_update:
  "label l' = label (labels s ! j) \<Longrightarrow> table_ok s \<Longrightarrow>
   table_ok (s\<lparr>tgt := t, labels := (labels s)[j := l']\<rparr>)"
  by (simp add: table_ok_def map_label_update)

lemma table_ok_update':
  "label l' = label (labels s ! j) \<Longrightarrow> table_ok s \<Longrightarrow>
   table_ok (s\<lparr>labels := (labels s)[j := l']\<rparr>)"
  by (simp add: table_ok_def map_label_update)

lemma reference_table_ok:
  assumes "table_ok (asm_st x)"
  shows "table_ok (asm_st (snd (snd (asm_reference (find_label lbl llen (asm_st x)) x))))"
proof -
  let ?f = "find_label lbl llen (asm_st x)"
  have ok1: "table_ok (snd ?f)" using assms by (rule find_label_ok)
  show ?thesis
  proof (cases "fst ?f")
    case None
    then show ?thesis using ok1 by (simp add: asm_reference_def)
  next
    case (Some j)
    then show ?thesis using ok1
      by (simp add: asm_reference_def Let_def table_ok_update')
  qed
qed

lemma label_ref_table_ok:
  "table_ok (asm_st x) \<Longrightarrow> table_ok (asm_st (snd (snd (snd (asm_label_ref buffer i x)))))"
  unfolding asm_label_ref_def Let_def
  by (rule table_ok_same [OF offset_frame]) (rule reference_table_ok)

lemma mnemonic_table_ok:
  "table_ok (asm_st x) \<Longrightarrow>
   table_ok (asm_st (snd (snd (snd (snd (asm_mnemonic buffer i x))))))"
  by (simp add: asm_mnemonic_def Let_def label_ref_table_ok)

lemma label_table_ok:
  assumes "table_ok (asm_st x)"
  shows "table_ok (asm_st (snd (snd (asm_label buffer x))))"
proof -
  let ?i = "scan isAlphaNumeric buffer (length buffer) 0"
  let ?f = "find_label buffer ?i (asm_st x)"
  have ok1: "table_ok (snd ?f)" using assms by (rule find_label_ok)
  show ?thesis
    using assms ok1
    by (cases "fst ?f") (simp_all add: asm_label_def Let_def define_label_st table_ok_update)
qed

lemma line_table_ok:
  assumes ok: "table_ok (asm_st x)" and r: "assemble_line line x = Some x'"
  shows "table_ok (asm_st x')"
proof -
  let ?buf = "line @ '' ''"
  let ?l = "asm_label ?buf x"
  let ?m = "if fst ?l then asm_mnemonic ?buf (fst (snd ?l)) (snd (snd ?l))
            else (False, fst (snd ?l), - 1, 0, snd (snd ?l))"
  let ?x2 = "snd (snd (snd (snd ?m)))"
  have 1: "table_ok (asm_st (snd (snd ?l)))" using ok by (rule label_table_ok)
  then have 2: "table_ok (asm_st ?x2)" by (simp add: mnemonic_table_ok)
  show ?thesis
    using r 2
    by (auto simp: assemble_line_def Let_def table_ok_same [OF emit_frame] split: if_splits)
qed

lemma lines_table_ok:
  "table_ok (asm_st x) \<Longrightarrow> assemble_lines lines x = Some x' \<Longrightarrow> table_ok (asm_st x')"
proof (induction lines arbitrary: x)
  case Nil
  then show ?case by simp
next
  case (Cons line lines)
  from Cons.prems(2) obtain x1 where l: "assemble_line line x = Some x1"
    and ls: "assemble_lines lines x1 = Some x'"
    by (auto split: option.splits)
  from line_table_ok [OF Cons.prems(1) l] ls show ?case by (rule Cons.IH)
qed

lemma start_table_ok: "length (labels s) = 16 \<Longrightarrow> table_ok (s\<lparr>num_labels := 0\<rparr>)"
  by (simp add: table_ok_def)

section \<open>Lemmas on scanning the line buffer\<close>

lemma at_append_right: "at (pre @ suf) (length pre + i) = at suf i"
  by (simp add: at_def nth_append)

lemma at_append_left: "i < length pre \<Longrightarrow> at (pre @ suf) i = pre ! i"
  by (simp add: at_def nth_append)

lemma scan_shift:
  "scan p (pre @ suf) (length pre + length suf) (length pre + i) = length pre + scan p suf (length suf) i"
proof (induction p suf "length suf" i rule: scan.induct)
  case (1 p suf i)
  show ?case
  proof (cases "i < length suf \<and> p (at suf i)")
    case True
    with 1 have "scan p (pre @ suf) (length pre + length suf) (length pre + (i + 1)) =
      length pre + scan p suf (length suf) (i + 1)" by simp
    with True show ?thesis
      by (subst scan.simps, subst (2) scan.simps) (simp add: at_append_right add.assoc)
  next
    case False
    then show ?thesis
      by (subst scan.simps, subst (2) scan.simps) (auto simp: at_append_right)
  qed
qed

lemma scan_all:
  "\<forall>c \<in> set w. p c \<Longrightarrow> rest = [] \<or> \<not> p (hd rest) \<Longrightarrow>
   scan p (w @ rest) (length w + length rest) 0 = length w"
proof (induction w)
  case Nil
  then show ?case by (subst scan.simps) (cases rest; simp add: at_def)
next
  case (Cons c w)
  have "scan p ((c # w) @ rest) (length (c # w) + length rest) 0
      = scan p ([c] @ (w @ rest)) (length [c] + length (w @ rest)) (length [c] + 0)"
    using Cons.prems by (subst scan.simps) (simp add: at_def)
  also have "\<dots> = length [c] + scan p (w @ rest) (length (w @ rest)) 0"
    by (rule scan_shift)
  finally show ?case using Cons by simp
qed


lemma parse_arg_shift:
  "parse_arg (pre @ suf) (length pre + length suf) (length pre + i) v fh =
     (fst (parse_arg suf (length suf) i v fh),
      length pre + fst (snd (parse_arg suf (length suf) i v fh)),
      snd (snd (parse_arg suf (length suf) i v fh)))"
proof -
  have a: "at (pre @ suf) (Suc (length pre + i)) = at suf (Suc i)"
    "at (pre @ suf) (Suc (Suc (length pre + i))) = at suf (Suc (Suc i))"
    using at_append_right [of pre suf "Suc i"] at_append_right [of pre suf "Suc (Suc i)"]
    by simp_all
  show ?thesis
    by (simp add: parse_arg_def at_append_right a Let_def)
qed

lemma print_word_shift:
  "print_word (pre @ suf) (length pre + length suf) (length pre + i) =
     (length pre + fst (print_word suf (length suf) i), snd (print_word suf (length suf) i))"
  by (simp add: print_word_def scan_shift Let_def)

lemma label_key_ident:
  "w \<noteq> [] \<Longrightarrow> label_key (w @ rest) (length w) = take 3 (w @ ''   '')"
proof -
  assume "w \<noteq> []"
  then obtain a w1 where w: "w = a # w1" by (cases w) auto
  show ?thesis
  proof (cases w1)
    case Nil
    with w show ?thesis by (simp add: label_key_def at_def)
  next
    case (Cons b w2)
    with w show ?thesis by (cases w2) (simp_all add: label_key_def at_def)
  qed
qed

lemma find_label_ident:
  assumes "w1 \<noteq> []" "w2 \<noteq> []" "take 3 (w1 @ ''   '') = take 3 (w2 @ ''   '')"
  shows "find_label (w1 @ rest1) (length w1) s = find_label (w2 @ rest2) (length w2) s"
  using assms by (simp add: find_label_def label_key_ident)

lemma asm_label_ident:
  assumes w: "ident w" and rest: "rest \<noteq> []" "\<not> isAlphaNumeric (hd rest)"
  shows "asm_label (w @ rest) x =
     (let f = find_label (w @ rest) (length w) (asm_st x);
          x1 = x\<lparr>asm_st := snd f\<rparr>
      in case fst f of
           None \<Rightarrow> (False, length w, say ''Too many labels.'' x1)
         | Some k \<Rightarrow>
             if 0 \<le>s loc (labels (snd f) ! k)
             then (False, length w, say ''Duplicate label definition.'' x1)
             else (True, length w, define_label k x1))"
proof -
  from w have a: "isAlpha (at (w @ rest) 0)"
    by (cases w) (simp_all add: ident_def at_def)
  from w rest have s: "scan isAlphaNumeric (w @ rest) (length w + length rest) 0 = length w"
    by (intro scan_all) (simp_all add: ident_def)
  show ?thesis unfolding asm_label_def Let_def length_append s by (simp add: a)
qed


lemma asm_offset_shift:
  "asm_offset (pre @ suf) (length pre + i) ok arg x =
     (fst (asm_offset suf i ok arg x),
      length pre + fst (snd (asm_offset suf i ok arg x)),
      snd (snd (asm_offset suf i ok arg x)))"
proof -
  have s1: "scan isSpace (pre @ suf) (length pre + length suf) (Suc (length pre + i)) =
      length pre + scan isSpace suf (length suf) (Suc i)"
    using scan_shift [of isSpace pre suf "Suc i"] by simp
  show ?thesis
    unfolding asm_offset_def Let_def length_append at_append_right add.assoc [symmetric]
      Suc_eq_plus1 [symmetric] s1 parse_arg_shift
    by (simp add: Let_def print_word_shift)
qed

lemma asm_label_ref_ident:
  assumes w: "ident w" and rest: "rest \<noteq> []" "\<not> isAlphaNumeric (hd rest)"
  shows "asm_label_ref (pre @ w @ rest) (length pre) x =
     (let r = asm_reference (find_label (w @ rest) (length w) (asm_st x)) x;
          q = asm_offset rest 0 (fst r) (fst (snd r)) (snd (snd r))
      in (fst q, length pre + length w + fst (snd q), snd (snd q)))"
proof -
  from w rest have "scan isAlphaNumeric (w @ rest) (length (w @ rest)) 0 = length w"
    using scan_all [of w isAlphaNumeric rest] by (simp add: ident_def)
  then have s: "scan isAlphaNumeric (pre @ w @ rest) (length pre + (length w + length rest)) (length pre)
      = length pre + length w"
    using scan_shift [of isAlphaNumeric pre "w @ rest" 0] by simp
  have o: "asm_offset (pre @ w @ rest) (length pre + length w) ok arg y =
     (fst (asm_offset rest 0 ok arg y),
      length pre + length w + fst (snd (asm_offset rest 0 ok arg y)),
      snd (snd (asm_offset rest 0 ok arg y)))" for ok arg y
    using asm_offset_shift [of "pre @ w" rest 0 ok arg y] by simp
  show ?thesis
    unfolding asm_label_ref_def Let_def length_append s o by simp
qed

lemmas char_defs = isAlpha_def isDigit_def isAlphaNumeric_def isSpace_def

lemma idents: "ident ''LOOP''" "ident ''LOOK9''" "\<not> isAlphaNumeric (hd '' '')"
  by (simp_all add: ident_def char_defs)

section \<open>Lemmas on assembling one instruction\<close>

lemma at_Cons_0 [simp]: "at (c # cs) 0 = c" by (simp add: at_def)
lemma at_Cons_Suc [simp]: "at (c # cs) (Suc n) = at cs n" by (simp add: at_def)
lemma at_Nil [simp]: "at [] n = CHR 0x00" by (simp add: at_def)
lemma at_Cons_numeral [simp]: "at (c # cs) (numeral v) = at cs (numeral v - 1)"
  by (simp add: at_def nth_Cons_numeral)

lemma space_facts [simp]: "isSpace CHR '' ''" "\<not> isAlpha CHR '' ''" "\<not> isDigit CHR '' ''"
  "\<not> isSpace CHR ''0''" "\<not> isAlpha CHR ''0''" "isDigit CHR ''0''"
  by (simp_all add: char_defs)

lemma digit_not_space: "isDigit c \<Longrightarrow> \<not> isSpace c \<and> c \<noteq> CHR ''#'' \<and> c \<noteq> CHR ''$''"
  by (auto simp: char_defs Let_def)

lemma reassemble_arg:
  assumes m0: "\<not> isSpace m0"
    and f: "fst (snd (find_opcode opcodes_4bit 0
              [m0, m1, m2, CHR '' '', CHR '' '', CHR ''0'', c1, CHR '' ''] False True False))"
    and h: "has_arg (opcodes_4bit ! nat (fst (find_opcode opcodes_4bit 0
              [m0, m1, m2, CHR '' '', CHR '' '', CHR ''0'', c1, CHR '' ''] False True False)))"
    and k: "0 \<le> fst (find_opcode opcodes_4bit 0
              [m0, m1, m2, CHR '' '', CHR '' '', CHR ''0'', c1, CHR '' ''] False True False)"
    and c1: "isDigit c1"
    and o: "opcode (opcodes_4bit ! nat (fst (find_opcode opcodes_4bit 0
              [m0, m1, m2, CHR '' '', CHR '' '', CHR ''0'', c1, CHR '' ''] False True False))) \<noteq> 0xFF"
       "opcode (opcodes_4bit ! nat (fst (find_opcode opcodes_4bit 0
              [m0, m1, m2, CHR '' '', CHR '' '', CHR ''0'', c1, CHR '' ''] False True False))) \<noteq> 0xFE"
  shows "assemble_line [CHR '' '', m0, m1, m2, CHR '' '', CHR '' '', CHR ''0'', c1] x =
           Some (emit (opcode (opcodes_4bit ! nat (fst (find_opcode opcodes_4bit 0
              [m0, m1, m2, CHR '' '', CHR '' '', CHR ''0'', c1, CHR '' ''] False True False)))
                       OR ((of_char c1 - 48) AND 0x0F)) x)"
proof -
  let ?buf = "[CHR '' '', m0, m1, m2, CHR '' '', CHR '' '', CHR ''0'', c1, CHR '' '']"
  let ?f = "find_opcode opcodes_4bit 0 [m0, m1, m2, CHR '' '', CHR '' '', CHR ''0'', c1, CHR '' '']
      False True False"
  note d = digit_not_space [OF c1(1)]
  have l: "asm_label ?buf x = (True, 0, x)"
    by (simp add: asm_label_def)
  have p: "parse_arg ?buf (length ?buf) 6 0 False = (True, 8, of_char c1 - 48)"
    using c1 d by (simp add: parse_arg_def Let_def)
  have m: "asm_mnemonic ?buf 0 x = (True, 8, fst ?f, of_char c1 - 48, x)"
    using m0 d h f by (simp add: asm_mnemonic_def scan.simps p [simplified] Let_def)
  show ?thesis
    using o k by (simp add: assemble_line_def l m BUFFER_SIZE_def scan.simps asm_emit_def mode_4bit_def Let_def)
qed

lemma reassemble_noarg:
  assumes m0: "\<not> isSpace m0"
    and f: "fst (snd (find_opcode opcodes_4bit 0
              [m0, m1, m2, CHR '' '', CHR '' '', CHR '' ''] False False False))"
    and h: "\<not> has_arg (opcodes_4bit ! nat (fst (find_opcode opcodes_4bit 0
              [m0, m1, m2, CHR '' '', CHR '' '', CHR '' ''] False False False)))"
    and k: "0 \<le> fst (find_opcode opcodes_4bit 0
              [m0, m1, m2, CHR '' '', CHR '' '', CHR '' ''] False False False)"
    and o: "opcode (opcodes_4bit ! nat (fst (find_opcode opcodes_4bit 0
              [m0, m1, m2, CHR '' '', CHR '' '', CHR '' ''] False False False))) \<noteq> 0xFF"
       "opcode (opcodes_4bit ! nat (fst (find_opcode opcodes_4bit 0
              [m0, m1, m2, CHR '' '', CHR '' '', CHR '' ''] False False False))) \<noteq> 0xFE"
  shows "assemble_line [CHR '' '', m0, m1, m2, CHR '' '', CHR '' ''] x =
           Some (emit (opcode (opcodes_4bit ! nat (fst (find_opcode opcodes_4bit 0
              [m0, m1, m2, CHR '' '', CHR '' '', CHR '' ''] False False False)))) x)"
proof -
  let ?buf = "[CHR '' '', m0, m1, m2, CHR '' '', CHR '' '', CHR '' '']"
  let ?f = "find_opcode opcodes_4bit 0 [m0, m1, m2, CHR '' '', CHR '' '', CHR '' ''] False False False"
  have l: "asm_label ?buf x = (True, 0, x)"
    by (simp add: asm_label_def)
  have m: "asm_mnemonic ?buf 0 x = (True, 7, fst ?f, 0, x)"
    using m0 h f by (simp add: asm_mnemonic_def scan.simps Let_def)
  show ?thesis
    using o k by (simp add: assemble_line_def l m BUFFER_SIZE_def scan.simps asm_emit_def mode_4bit_def Let_def)
qed

lemma less_16_cases:
  "k < 16 \<Longrightarrow> k = 0 \<or> k = 1 \<or> k = 2 \<or> k = 3 \<or> k = 4 \<or> k = 5 \<or> k = 6 \<or> k = 7 \<or> k = 8 \<or> k = 9 \<or>
     k = 10 \<or> k = 11 \<or> k = 12 \<or> k = 13 \<or> k = 14 \<or> k = (15::nat)"
  by arith

lemmas asm_eval = opcodes_4bit_def opc_def strncasecmp_eq_def tolower_def char_defs Let_def

lemma reassemble_entry_arg:
  assumes "k < 16" "has_arg (opcodes_4bit ! k)" "isDigit c1"
  shows "assemble_line (CHR '' '' # mnemonic (opcodes_4bit ! k) @ [CHR ''0'', c1]) x =
           Some (emit (opcode (opcodes_4bit ! k) OR ((of_char c1 - 48) AND 0x0F)) x)"
  using less_16_cases [OF assms(1)] assms(2,3)
  apply (elim disjE)
  apply (simp_all add: opcodes_4bit_def opc_def)
  apply (simp_all add: reassemble_arg asm_eval)
  done


lemma reassemble_entry_noarg:
  assumes "k < 16" "\<not> has_arg (opcodes_4bit ! k)"
  shows "assemble_line (CHR '' '' # mnemonic (opcodes_4bit ! k)) x =
           Some (emit (opcode (opcodes_4bit ! k)) x)"
  using less_16_cases [OF assms(1)] assms(2)
  apply (elim disjE)
  apply (simp_all add: opcodes_4bit_def opc_def)
  apply (simp_all add: reassemble_noarg asm_eval)
  done

lemma opcode_entry:
  assumes "k < 16"
  shows "opcode (opcodes_4bit ! k) = push_bit 4 (of_nat k)"
  using less_16_cases [OF assms(1)]
  by (elim disjE) (simp_all add: opcodes_4bit_def opc_def)


lemma high_nibble: "push_bit 4 (drop_bit 4 b) = (b AND 0xF0 :: byte)"
  unfolding m240 by (rule bit_word_eqI) (auto simp: bit_simps)

lemma nibbles: "(b AND 0xF0) OR (b AND 0x0F) = (b :: byte)"
  unfolding m240 m15 by (rule bit_word_eqI) (auto simp: bit_simps)

lemma index_less_16: "unat (drop_bit 4 (b :: byte)) < 16"
proof -
  have "unat (drop_bit 4 b) = unat b div 16" by (simp add: drop_bit_eq_div unat_div)
  moreover have "unat b < 256" using unsigned_less [of b, where 'a = nat] by simp
  ultimately show ?thesis by simp
qed

lemma write_ram_1:
  "ram (write_ram (\<lambda>_. b) a 1 s) (ucast a) = b \<and> \<not> ri (write_ram (\<lambda>_. b) a 1 s) \<and>
   \<not> mi (write_ram (\<lambda>_. b) a 1 s)"
  by (simp add: write_ram_def write_ram_body_def Let_def line_defs)

lemma emit_read: "fst (read_ram buf (ucast (asm_a x)) 1 (tgt (asm_st (emit b x)))) 0 = b"
  using write_ram_1 [of b "ucast (asm_a x)" "tgt (asm_st x)"]
  by (simp add: emit_def read_ram_1)

lemma less_10_cases:
  "d \<le> 9 \<Longrightarrow> d = 0 \<or> d = 1 \<or> d = 2 \<or> d = 3 \<or> d = 4 \<or> d = 5 \<or> d = 6 \<or> d = 7 \<or> d = 8 \<or> d = (9::nat)"
  by arith

lemma hexdigit_decimal:
  assumes "d \<le> 9"
  shows "isDigit (hexdigit d) \<and> (of_char (hexdigit d) - 48 :: byte) = of_nat d"
  using less_10_cases [OF assms]
  by (elim disjE) (simp_all add: hexdigit_def char_defs)

lemma disassemble_text_arg:
  "has_arg (opcodes_4bit ! unat (drop_bit 4 b)) \<Longrightarrow>
     disassemble_text b =
       mnemonic (opcodes_4bit ! unat (drop_bit 4 b)) @ [CHR ''0'', hexdigit (unat (b AND 0x0F))]"
  by (simp add: disassemble_text_def dec2hex_def drop4_low low_low hexdigit_def)

lemma text_5A: "disassemble_text 0x5A = ''LDI  0a''"
  by (simp add: disassemble_text_def dec2hex_def opcodes_4bit_def opc_def hexdigit_def
      drop_bit_eq_div)

lemma reassemble_5A:
  "map_option stored0 (reassemble 0x5A start_assembly) =
     Some (0x50, ''Extra ignored: a '' @ CRLF)"
  apply (simp add: stored0_def reassemble_def text_5A assemble_line_def BUFFER_SIZE_def asm_label_def
      asm_mnemonic_def scan.simps parse_arg_def asm_eval asm_emit_def mode_4bit_def)
  apply (simp add: emit_def say_def Serial_println_def println_def start_assembly_def
      write_ram_def write_ram_body_def line_defs quiet_state_def reset_state_def target0_def)
  done

section \<open>Two concrete assemblies\<close>

lemma ref_facts:
  "ident ''X''"
  "'' NOP '' \<noteq> []"
  "\<not> isAlphaNumeric (hd '' NOP '')"
  "fst (find_label (''X'' @ '' NOP '') (length ''X'') (asm_st ref_assembly)) = Some 0"
  "lines_low (tgt (asm_st ref_assembly))"
  "0 < length (labels (asm_st ref_assembly))"
  "table_ok (asm_st ref_assembly)"
  "pending ''X  '' 0 (asm_st ref_assembly)"
  "list_all (\<lambda>line. \<not> line_defines line ''X  '') ['' HLT  '']"
  by code_simp+

lemma ref_halt: "assemble_lines ['' HLT  ''] ref_assembly = Some (emit 0xF0 ref_assembly)"
  using reassemble_entry_noarg [of 15 ref_assembly]
  by (simp add: opcodes_4bit_def opc_def)

lemma ref_patch:
  "ram (tgt (asm_st (define_label 0 ref_assembly))) 0 = 0x62"
  "ram (tgt (asm_st ref_assembly)) 0 = 0x60"
  "asm_a ref_assembly = 2"
  by code_simp+

lemma dup_eval:
  "map_option site0
      (assemble_lines ['' JMP X'', '' .OR 0'', '' JMP X'', ''X NOP''] start_assembly) =
     Some (0x62, 1, 0)"
  by code_simp

lemma silent_eval:
  "map_option reported
      (assemble_lines ['' JMP X'', '' .OR 5''] start_assembly) = Some ([''X''], False)"
  "map_option out (assemble 0 ['' JMP X'', '' .OR 5''] quiet_state) = Some []"
  by code_simp+

section \<open>C7: assembling what the disassembler prints\<close>

text \<open>
  C7, as the code has it. The disassembler prints the argument as two hexadecimal
  digits and the assembler reads digits without a \<open>$\<close> as decimal. So for each of
  the 16 opcode values: when the mnemonic takes an argument and the low nibble of
  \<open>b\<close> is at most 9, or when the mnemonic takes no argument and the low nibble is 0,
  assembling the text printed for \<open>b\<close> stores exactly one byte, \<open>b\<close>, at the
  current address, prints nothing and changes nothing else; reading that address back
  gives \<open>b\<close>.
\<close>

theorem reassemble_decimal:
  assumes "(has_arg (opcodes_4bit ! unat (drop_bit 4 b)) \<and> unat (b AND 0x0F) \<le> 9) \<or>
           (\<not> has_arg (opcodes_4bit ! unat (drop_bit 4 b)) \<and> b AND 0x0F = 0)"
  shows "reassemble b x = Some (emit b x) \<and>
         fst (read_ram buf (ucast (asm_a x)) 1 (tgt (asm_st (emit b x)))) 0 = b"
proof -
  let ?k = "unat (drop_bit 4 b)"
  have k: "?k < 16" by (rule index_less_16)
  have oc: "opcode (opcodes_4bit ! ?k) = b AND 0xF0"
    by (simp add: opcode_entry [OF k] high_nibble)
  from assms have "reassemble b x = Some (emit b x)"
  proof
    assume a: "has_arg (opcodes_4bit ! ?k) \<and> unat (b AND 0x0F) \<le> 9"
    then have h: "has_arg (opcodes_4bit ! ?k)" and d: "unat (b AND 0x0F) \<le> 9" by simp_all
    note hd = hexdigit_decimal [OF d]
    have "reassemble b x =
       Some (emit (opcode (opcodes_4bit ! ?k) OR ((of_char (hexdigit (unat (b AND 0x0F))) - 48) AND 0x0F)) x)"
      unfolding reassemble_def disassemble_text_arg [OF h]
      using hd by (intro reassemble_entry_arg [OF k h]) simp
    also have "(of_char (hexdigit (unat (b AND 0x0F))) - 48 :: byte) = b AND 0x0F"
      using hd by simp
    finally show ?thesis by (simp add: oc low_low nibbles)
  next
    assume a: "\<not> has_arg (opcodes_4bit ! ?k) \<and> b AND 0x0F = 0"
    then have h: "\<not> has_arg (opcodes_4bit ! ?k)" and z: "b AND 0x0F = 0" by simp_all
    have "reassemble b x = Some (emit (opcode (opcodes_4bit ! ?k)) x)"
      unfolding reassemble_def using h
      by (simp add: disassemble_text_def reassemble_entry_noarg [OF k h])
    moreover have "b AND 0xF0 = b" using nibbles [of b] z by simp
    ultimately show ?thesis by (simp add: oc)
  qed
  then show ?thesis by (simp add: emit_read)
qed

theorem reassemble_decimal_witness:
  "has_arg (opcodes_4bit ! unat (drop_bit 4 (0x55 :: byte))) \<and>
   unat (0x55 AND 0x0F :: byte) \<le> 9 \<and>
   reassemble 0x55 start_assembly = Some (emit 0x55 start_assembly) \<and>
   fst (read_ram (\<lambda>_. 0) (ucast (asm_a start_assembly)) 1
          (tgt (asm_st (emit 0x55 start_assembly)))) 0 = 0x55 \<and>
   \<not> has_arg (opcodes_4bit ! unat (drop_bit 4 (0xE0 :: byte))) \<and>
   (0xE0 AND 0x0F :: byte) = 0 \<and>
   reassemble 0xE0 start_assembly = Some (emit 0xE0 start_assembly)"
proof -
  have a: "has_arg (opcodes_4bit ! unat (drop_bit 4 (0x55 :: byte)))"
    "unat (0x55 AND 0x0F :: byte) \<le> 9"
    "\<not> has_arg (opcodes_4bit ! unat (drop_bit 4 (0xE0 :: byte)))"
    "(0xE0 AND 0x0F :: byte) = 0"
    by (simp_all add: opcodes_4bit_def opc_def drop_bit_eq_div)
  from a(1,2) have h1: "(has_arg (opcodes_4bit ! unat (drop_bit 4 (0x55 :: byte))) \<and>
       unat (0x55 AND 0x0F :: byte) \<le> 9) \<or>
      (\<not> has_arg (opcodes_4bit ! unat (drop_bit 4 (0x55 :: byte))) \<and> (0x55 AND 0x0F :: byte) = 0)"
    by blast
  from a(3,4) have h2: "(has_arg (opcodes_4bit ! unat (drop_bit 4 (0xE0 :: byte))) \<and>
       unat (0xE0 AND 0x0F :: byte) \<le> 9) \<or>
      (\<not> has_arg (opcodes_4bit ! unat (drop_bit 4 (0xE0 :: byte))) \<and> (0xE0 AND 0x0F :: byte) = 0)"
    by blast
  from reassemble_decimal [OF h1, of start_assembly "\<lambda>_. 0"]
    reassemble_decimal [OF h2, of start_assembly "\<lambda>_. 0"] a
  show ?thesis by blast
qed

text \<open>
  The claim as stated fails where the low nibble is above 9. The byte 0x5A has a
  descriptor with an argument and is printed as \<open>LDI  0a\<close>; assembling that text
  stores 0x50 and reports the \<open>a\<close> as ignored.
\<close>

theorem reassemble_hex_counterexample:
  "has_arg (opcodes_4bit ! unat (drop_bit 4 (0x5A :: byte))) \<and>
   disassemble_text 0x5A = ''LDI  0a'' \<and>
   map_option stored0 (reassemble 0x5A start_assembly) =
     Some (0x50, ''Extra ignored: a '' @ CRLF) \<and>
   (0x50 :: byte) \<noteq> 0x5A"
  by (simp add: text_5A reassemble_5A opcodes_4bit_def opc_def drop_bit_eq_div)

section \<open>C8: what the disassembler prints\<close>

text \<open>
  C8, as the code has it. For every byte whose high-nibble descriptor has the
  has-argument flag set, the disassembler appends the low nibble to the mnemonic as
  two hexadecimal digits, the first of them \<open>0\<close> (\<open>dec2hex\<close> formats with
  \<open>%02x\<close>); for a descriptor without the flag it prints the mnemonic alone. The byte
  0x55 prints \<open>LDI  05\<close> and 0xE0 prints \<open>OUT  \<close>; disassembling the range 0..1 of a
  RAM holding these two bytes prints the lines \<open>00: 55   LDI  05\<close> and
  \<open>01: e0   OUT  \<close>.
\<close>

theorem disassemble_two_digits:
  "(has_arg (opcodes_4bit ! unat (drop_bit 4 b)) \<longrightarrow>
      disassemble_text b =
        mnemonic (opcodes_4bit ! unat (drop_bit 4 b)) @
        [CHR ''0'', hexdigit (unat (b AND 0x0F))]) \<and>
   (\<not> has_arg (opcodes_4bit ! unat (drop_bit 4 b)) \<longrightarrow>
      disassemble_text b = mnemonic (opcodes_4bit ! unat (drop_bit 4 b))) \<and>
   disassemble_text 0x55 = ''LDI  05'' \<and>
   disassemble_text 0xE0 = ''OUT  '' \<and>
   map_option fst (disassemble 0 1 [] ([], target_of [0x55, 0xE0])) =
     Some (''00: 55   LDI  05'' @ CRLF @ ''01: e0   OUT  '' @ CRLF)"
proof -
  have "hexdigit 0 = CHR ''0''" by (simp add: hexdigit_def)
  then have general: "has_arg (opcodes_4bit ! unat (drop_bit 4 b)) \<longrightarrow>
      disassemble_text b =
        mnemonic (opcodes_4bit ! unat (drop_bit 4 b)) @
        [CHR ''0'', hexdigit (unat (b AND 0x0F))]"
    by (simp add: disassemble_text_def dec2hex_def drop4_low low_low)
  have noarg: "\<not> has_arg (opcodes_4bit ! unat (drop_bit 4 b)) \<longrightarrow>
      disassemble_text b = mnemonic (opcodes_4bit ! unat (drop_bit 4 b))"
    by (simp add: disassemble_text_def)
  have bytes: "disassemble_text 0x55 = ''LDI  05''" "disassemble_text 0xE0 = ''OUT  ''"
    by (simp_all add: disassemble_text_def dec2hex_def opcodes_4bit_def opc_def
        hexdigit_def drop_bit_eq_div)
  have "map_option fst (disassemble 0 1 [] ([], target_of [0x55, 0xE0])) =
     Some (''00: 55   LDI  05'' @ CRLF @ ''01: e0   OUT  '' @ CRLF)"
    by (simp add: disassemble_def disassemble_step_def upt_rec read_ram_1 target_of_def
        target0_def println_def dec2hex_def hexdigit_def drop_bit_eq_div disassemble_text_def
        opcodes_4bit_def opc_def CRLF_def word_sless_alt word_sle_eq)
  with general noarg bytes show ?thesis by blast
qed

theorem disassemble_two_digits_witness:
  "has_arg (opcodes_4bit ! unat (drop_bit 4 (0x5A :: byte))) \<and>
   disassemble_text 0x5A = ''LDI  0a'' \<and>
   \<not> has_arg (opcodes_4bit ! unat (drop_bit 4 (0xE3 :: byte))) \<and>
   disassemble_text 0xE3 = ''OUT  ''"
  using disassemble_two_digits [of "0x5A"] disassemble_two_digits [of "0xE3"]
  by (simp add: opcodes_4bit_def opc_def hexdigit_def drop_bit_eq_div)

text \<open>
  The claim as stated fails at the byte 0x55 of its own example: the argument is not
  one digit, and the text printed is not \<open>LDI  5\<close>.
\<close>

theorem disassemble_one_digit_counterexample:
  "has_arg (opcodes_4bit ! unat (drop_bit 4 (0x55 :: byte))) \<and>
   disassemble_text 0x55 = ''LDI  05'' \<and>
   disassemble_text 0x55 \<noteq> ''LDI  5''"
  by (simp add: disassemble_text_def dec2hex_def opcodes_4bit_def opc_def
      hexdigit_def drop_bit_eq_div)

section \<open>C9: the EEPROM bound\<close>

text \<open>
  C9. The claim holds of the region and fails on the code: the last RAM image slot,
  16 bytes at offset 992, ends exactly at the reserved region's end
  (\<open>992 + 16 = 1024 - 16\<close>), yet \<open>write_eeprom\<close> and \<open>read_eeprom\<close> both refuse it,
  because they test \<open>start + size < 1024 - 16\<close>. The comment in the source counts 63
  storable images, which needs this slot. The refusal itself leaves the EEPROM and the
  buffer as they were.
\<close>

theorem eeprom_last_slot_refused:
  "unat (992 :: uint16) + unat (16 :: uint16) \<le> 1024 - 16 \<and>
   write_eeprom buffer True 992 16 ee = (False, ee) \<and>
   read_eeprom buffer True 992 16 ee = (False, buffer)"
  by (simp add: write_eeprom_def read_eeprom_def)

section \<open>C10: labels are their first three characters\<close>

text \<open>
  C10. Two identifiers whose first three characters agree (a shorter one padded with
  spaces) are the same label to the assembler. \<open>find_label\<close> returns the same entry
  and the same table for both, whatever follows them in the buffer. At the start of a
  line (a definition) and as an argument (a reference), followed by the same text, they
  give the same \<open>ok\<close>, the same argument and the same state; only the index at
  which the scan of the line goes on differs, by the difference of their lengths.
\<close>

theorem labels_three_characters:
  assumes "ident w1" and "ident w2"
    and "take 3 (w1 @ ''   '') = take 3 (w2 @ ''   '')"
    and "rest \<noteq> []" and "\<not> isAlphaNumeric (hd rest)"
  shows "find_label (w1 @ rest1) (length w1) s = find_label (w2 @ rest2) (length w2) s \<and>
         fst (asm_label (w1 @ rest) x) = fst (asm_label (w2 @ rest) x) \<and>
         snd (snd (asm_label (w1 @ rest) x)) = snd (snd (asm_label (w2 @ rest) x)) \<and>
         fst (snd (asm_label (w1 @ rest) x)) = length w1 \<and>
         fst (snd (asm_label (w2 @ rest) x)) = length w2 \<and>
         fst (asm_label_ref (pre @ w1 @ rest) (length pre) x) =
           fst (asm_label_ref (pre @ w2 @ rest) (length pre) x) \<and>
         snd (snd (asm_label_ref (pre @ w1 @ rest) (length pre) x)) =
           snd (snd (asm_label_ref (pre @ w2 @ rest) (length pre) x)) \<and>
         fst (snd (asm_label_ref (pre @ w1 @ rest) (length pre) x)) + length w2 =
           fst (snd (asm_label_ref (pre @ w2 @ rest) (length pre) x)) + length w1"
proof -
  have ne: "w1 \<noteq> []" "w2 \<noteq> []" using assms(1,2) by (simp_all add: ident_def)
  have f: "find_label (w1 @ r1) (length w1) t = find_label (w2 @ r2) (length w2) t" for r1 r2 t
    using ne assms(3) by (rule find_label_ident)
  note d1 = asm_label_ident [OF assms(1) assms(4,5), of x]
  note d2 = asm_label_ident [OF assms(2) assms(4,5), of x]
  have d: "fst (asm_label (w1 @ rest) x) = fst (asm_label (w2 @ rest) x)"
    "snd (snd (asm_label (w1 @ rest) x)) = snd (snd (asm_label (w2 @ rest) x))"
    "fst (snd (asm_label (w1 @ rest) x)) = length w1"
    "fst (snd (asm_label (w2 @ rest) x)) = length w2"
    unfolding d1 d2 f [where ?r1.0 = rest and ?r2.0 = rest] by (simp_all add: Let_def split: option.split)
  note r1 = asm_label_ref_ident [OF assms(1) assms(4,5), of pre x]
  note r2 = asm_label_ref_ident [OF assms(2) assms(4,5), of pre x]
  have r: "fst (asm_label_ref (pre @ w1 @ rest) (length pre) x) =
           fst (asm_label_ref (pre @ w2 @ rest) (length pre) x)"
    "snd (snd (asm_label_ref (pre @ w1 @ rest) (length pre) x)) =
           snd (snd (asm_label_ref (pre @ w2 @ rest) (length pre) x))"
    "fst (snd (asm_label_ref (pre @ w1 @ rest) (length pre) x)) + length w2 =
           fst (snd (asm_label_ref (pre @ w2 @ rest) (length pre) x)) + length w1"
    unfolding r1 r2 f [where ?r1.0 = rest and ?r2.0 = rest] by (simp_all add: Let_def)
  from f [where ?r1.0 = rest1 and ?r2.0 = rest2 and t = s] d r show ?thesis by blast
qed

theorem labels_three_characters_witness:
  "ident ''LOOP'' \<and> ident ''LOOK9'' \<and>
   take 3 (''LOOP'' @ ''   '') = take 3 (''LOOK9'' @ ''   '') \<and>
   '' '' \<noteq> [] \<and> \<not> isAlphaNumeric (hd '' '') \<and>
   find_label (''LOOP'' @ '' NOP '') (length ''LOOP'') quiet_state =
     find_label (''LOOK9'' @ '' HLT '') (length ''LOOK9'') quiet_state \<and>
   snd (snd (asm_label (''LOOP'' @ '' '') start_assembly)) =
     snd (snd (asm_label (''LOOK9'' @ '' '') start_assembly)) \<and>
   snd (snd (asm_label_ref ('' JMP '' @ ''LOOP'' @ '' '') (length '' JMP '') start_assembly)) =
     snd (snd (asm_label_ref ('' JMP '' @ ''LOOK9'' @ '' '') (length '' JMP '') start_assembly))"
proof -
  have t: "take 3 (''LOOP'' @ ''   '') = take 3 (''LOOK9'' @ ''   '')" by simp
  have n: "'' '' \<noteq> []" by simp
  note c = labels_three_characters [OF idents(1,2) t n idents(3), where ?rest1.0 = "'' NOP ''"
      and ?rest2.0 = "'' HLT ''" and s = quiet_state and x = start_assembly and pre = "'' JMP ''"]
  from idents t n c show ?thesis by blast
qed

section \<open>C2: forward references\<close>

text \<open>
  C2, as the code has it, in three parts.

  The moment of definition: a line that starts with an identifier whose entry
  \<open>find_label\<close> returns either is rejected as a duplicate definition, when the entry
  has an address already, or runs \<open>define_label\<close> on the entry.

  The patch: with the lines MI and RI low, \<open>define_label\<close> goes once through the
  forward references recorded in the entry, in order, then clears the list and sets
  the address. Every RAM cell keeps its high nibble; its low nibble becomes the old
  low nibble plus the address for each time the cell is recorded as a site, modulo 16.
  So a site that is recorded once and holds the placeholder 0 receives the low nibble of
  the address, and a placeholder that holds an offset receives address plus offset.

  A label never defined: the label table is well-formed when \<open>assemble\<close> starts
  and stays so from line to line. When an entry has the name \<open>K\<close> and no address,
  and none of the lines assembled from there on defines \<open>K\<close>, then
  at the end the entry still has no address, the forward references that were recorded
  in it are still recorded, and its name is one of the undefined names. The summary is
  printed only when the current address is above the origin; it then lists exactly the
  undefined names, separated by commas.
\<close>

theorem forward_references:
  "(ident w \<and> rest \<noteq> [] \<and> \<not> isAlphaNumeric (hd rest) \<and>
    fst (find_label (w @ rest) (length w) (asm_st x)) = Some j \<longrightarrow>
      asm_label (w @ rest) x =
        (if 0 \<le>s loc (labels (snd (find_label (w @ rest) (length w) (asm_st x))) ! j)
         then (False, length w,
               say ''Duplicate label definition.''
                 (x\<lparr>asm_st := snd (find_label (w @ rest) (length w) (asm_st x))\<rparr>))
         else (True, length w,
               define_label j (x\<lparr>asm_st := snd (find_label (w @ rest) (length w) (asm_st x))\<rparr>)))) \<and>
   (lines_low (tgt (asm_st x)) \<and> j < length (labels (asm_st x)) \<longrightarrow>
      lines_low (tgt (asm_st (define_label j x))) \<and>
      ram (tgt (asm_st (define_label j x))) c AND 0xF0 = ram (tgt (asm_st x)) c AND 0xF0 \<and>
      ram (tgt (asm_st (define_label j x))) c AND 0x0F =
        (ram (tgt (asm_st x)) c +
         of_nat (count_list
                   (map (\<lambda>i. ucast (forward (labels (asm_st x) ! j) ! i))
                        [0..<forward_count (labels (asm_st x) ! j)]) c) *
         ucast (asm_a x)) AND 0x0F \<and>
      forward_count (labels (asm_st (define_label j x)) ! j) = 0 \<and>
      loc (labels (asm_st (define_label j x)) ! j) = asm_a x) \<and>
   (table_ok (asm_st x) \<and> pending K k (asm_st x) \<and>
    list_all (\<lambda>line. \<not> line_defines line K) lines \<and> assemble_lines lines x = Some y \<longrightarrow>
      pending K k (asm_st y) \<and> keeps_refs k (asm_st x) (asm_st y) \<and>
      label_name (labels (asm_st y) ! k) \<in> set (undefined_names (asm_st y)) \<and>
      (if asm_addr y <s asm_a y
       then out (asm_st (asm_summary y)) =
              out (asm_st y) @
              println (CHR 0x0A # ''UNDEFINED LABELS: '' @ join_names (undefined_names (asm_st y)))
       else asm_summary y = y)) \<and>
   (length (labels s) = 16 \<longrightarrow> table_ok (s\<lparr>num_labels := 0\<rparr>)) \<and>
   (table_ok (asm_st x) \<and> assemble_lines lines x = Some y \<longrightarrow> table_ok (asm_st y))"
proof -
  have a0: "ident w \<and> rest \<noteq> [] \<and> \<not> isAlphaNumeric (hd rest) \<and>
    fst (find_label (w @ rest) (length w) (asm_st x)) = Some j \<longrightarrow>
      asm_label (w @ rest) x =
        (if 0 \<le>s loc (labels (snd (find_label (w @ rest) (length w) (asm_st x))) ! j)
         then (False, length w,
               say ''Duplicate label definition.''
                 (x\<lparr>asm_st := snd (find_label (w @ rest) (length w) (asm_st x))\<rparr>))
         else (True, length w,
               define_label j (x\<lparr>asm_st := snd (find_label (w @ rest) (length w) (asm_st x))\<rparr>)))"
    by (simp add: asm_label_ident Let_def)
  have a: "lines_low (tgt (asm_st x)) \<and> j < length (labels (asm_st x)) \<longrightarrow>
      lines_low (tgt (asm_st (define_label j x))) \<and>
      ram (tgt (asm_st (define_label j x))) c AND 0xF0 = ram (tgt (asm_st x)) c AND 0xF0 \<and>
      ram (tgt (asm_st (define_label j x))) c AND 0x0F =
        (ram (tgt (asm_st x)) c +
         of_nat (count_list
                   (map (\<lambda>i. ucast (forward (labels (asm_st x) ! j) ! i))
                        [0..<forward_count (labels (asm_st x) ! j)]) c) *
         ucast (asm_a x)) AND 0x0F \<and>
      forward_count (labels (asm_st (define_label j x)) ! j) = 0 \<and>
      loc (labels (asm_st (define_label j x)) ! j) = asm_a x"
  proof
    assume h: "lines_low (tgt (asm_st x)) \<and> j < length (labels (asm_st x))"
    let ?sites = "map (\<lambda>i. forward (labels (asm_st x) ! j) ! i)
                        [0..<forward_count (labels (asm_st x) ! j)]"
    from h have low: "lines_low (tgt (asm_st x))" by simp
    have m: "map ucast ?sites = (map (\<lambda>i. ucast (forward (labels (asm_st x) ! j) ! i))
                        [0..<forward_count (labels (asm_st x) ! j)] :: 4 word list)"
      by simp
    from patch_fold [OF low, of "asm_a x" ?sites c] h
    show "lines_low (tgt (asm_st (define_label j x))) \<and>
      ram (tgt (asm_st (define_label j x))) c AND 0xF0 = ram (tgt (asm_st x)) c AND 0xF0 \<and>
      ram (tgt (asm_st (define_label j x))) c AND 0x0F =
        (ram (tgt (asm_st x)) c +
         of_nat (count_list
                   (map (\<lambda>i. ucast (forward (labels (asm_st x) ! j) ! i))
                        [0..<forward_count (labels (asm_st x) ! j)]) c) *
         ucast (asm_a x)) AND 0x0F \<and>
      forward_count (labels (asm_st (define_label j x)) ! j) = 0 \<and>
      loc (labels (asm_st (define_label j x)) ! j) = asm_a x"
      unfolding m by (simp add: define_label_st)
  qed
  have b: "table_ok (asm_st x) \<and> pending K k (asm_st x) \<and>
    list_all (\<lambda>line. \<not> line_defines line K) lines \<and> assemble_lines lines x = Some y \<longrightarrow>
      pending K k (asm_st y) \<and> keeps_refs k (asm_st x) (asm_st y) \<and>
      label_name (labels (asm_st y) ! k) \<in> set (undefined_names (asm_st y)) \<and>
      (if asm_addr y <s asm_a y
       then out (asm_st (asm_summary y)) =
              out (asm_st y) @
              println (CHR 0x0A # ''UNDEFINED LABELS: '' @ join_names (undefined_names (asm_st y)))
       else asm_summary y = y)"
  proof
    assume h: "table_ok (asm_st x) \<and> pending K k (asm_st x) \<and>
      list_all (\<lambda>line. \<not> line_defines line K) lines \<and> assemble_lines lines x = Some y"
    then have la: "list_all (\<lambda>line. \<not> line_defines line K) lines"
      and run: "assemble_lines lines x = Some y" by simp_all
    have "carries K k (asm_st x) (asm_st y)" using la run by (rule lines_carries)
    with h have r: "table_ok (asm_st y)" "pending K k (asm_st y)" "keeps_refs k (asm_st x) (asm_st y)"
      by (simp_all add: carries_def)
    from pending_listed [OF r(1,2)]
    have l: "label_name (labels (asm_st y) ! k) \<in> set (undefined_names (asm_st y))" .
    then have ne: "undefined_names (asm_st y) \<noteq> []" by auto
    have "if asm_addr y <s asm_a y
       then out (asm_st (asm_summary y)) =
              out (asm_st y) @
              println (CHR 0x0A # ''UNDEFINED LABELS: '' @ join_names (undefined_names (asm_st y)))
       else asm_summary y = y"
      using ne by (simp add: summary_out summary_silent)
    with r l show "pending K k (asm_st y) \<and> keeps_refs k (asm_st x) (asm_st y) \<and>
      label_name (labels (asm_st y) ! k) \<in> set (undefined_names (asm_st y)) \<and>
      (if asm_addr y <s asm_a y
       then out (asm_st (asm_summary y)) =
              out (asm_st y) @
              println (CHR 0x0A # ''UNDEFINED LABELS: '' @ join_names (undefined_names (asm_st y)))
       else asm_summary y = y)" by simp
  qed
  have t: "length (labels s) = 16 \<longrightarrow> table_ok (s\<lparr>num_labels := 0\<rparr>)"
    "table_ok (asm_st x) \<and> assemble_lines lines x = Some y \<longrightarrow> table_ok (asm_st y)"
    using lines_table_ok [of x lines y] by (simp_all add: start_table_ok)
  from a0 a b t show ?thesis by blast
qed

theorem forward_references_witness:
  "ident ''X'' \<and> '' NOP '' \<noteq> [] \<and> \<not> isAlphaNumeric (hd '' NOP '') \<and>
   fst (find_label (''X'' @ '' NOP '') (length ''X'') (asm_st ref_assembly)) = Some 0 \<and>
   lines_low (tgt (asm_st ref_assembly)) \<and> 0 < length (labels (asm_st ref_assembly)) \<and>
   ram (tgt (asm_st (define_label 0 ref_assembly))) 0 AND 0xF0 =
     ram (tgt (asm_st ref_assembly)) 0 AND 0xF0 \<and>
   ram (tgt (asm_st (define_label 0 ref_assembly))) 0 = 0x62 \<and>
   forward_count (labels (asm_st (define_label 0 ref_assembly)) ! 0) = 0 \<and>
   loc (labels (asm_st (define_label 0 ref_assembly)) ! 0) = asm_a ref_assembly \<and>
   table_ok (asm_st ref_assembly) \<and> pending ''X  '' 0 (asm_st ref_assembly) \<and>
   list_all (\<lambda>line. \<not> line_defines line ''X  '') ['' HLT  ''] \<and>
   assemble_lines ['' HLT  ''] ref_assembly = Some (emit 0xF0 ref_assembly) \<and>
   pending ''X  '' 0 (asm_st (emit 0xF0 ref_assembly)) \<and>
   keeps_refs 0 (asm_st ref_assembly) (asm_st (emit 0xF0 ref_assembly)) \<and>
   label_name (labels (asm_st (emit 0xF0 ref_assembly)) ! 0) \<in>
     set (undefined_names (asm_st (emit 0xF0 ref_assembly))) \<and>
   length (labels quiet_state) = 16 \<and> table_ok (quiet_state\<lparr>num_labels := 0\<rparr>) \<and>
   table_ok (asm_st (emit 0xF0 ref_assembly))"
proof -
  have q: "length (labels quiet_state) = 16" by (simp add: quiet_state_def reset_state_def)
  note c = forward_references [where w = "''X''" and rest = "'' NOP ''" and x = ref_assembly
      and j = 0 and c = 0 and K = "''X  ''" and k = 0 and lines = "['' HLT  '']"
      and y = "emit 0xF0 ref_assembly" and s = quiet_state]
  from c q ref_facts ref_halt ref_patch(1) show ?thesis by blast
qed

text \<open>
  The claim as stated fails in two places. A label defined at address 1 after two
  forward references recorded for the same site (the origin was set back between them)
  patches that site twice: its low nibble ends as 2, not as the address 1. And a label
  that is never defined is not reported when nothing was stored behind the last origin:
  after the lines \<open>JMP X\<close> and \<open>.OR 5\<close> the label \<open>X\<close> is undefined and
  \<open>assemble\<close> prints nothing.
\<close>

theorem forward_references_counterexample:
  "map_option site0
      (assemble_lines ['' JMP X'', '' .OR 0'', '' JMP X'', ''X NOP''] start_assembly) =
     Some (0x62, 1, 0) \<and>
   map_option reported
      (assemble_lines ['' JMP X'', '' .OR 5''] start_assembly) = Some ([''X''], False) \<and>
   map_option out (assemble 0 ['' JMP X'', '' .OR 5''] quiet_state) = Some []"
  by (intro conjI dup_eval silent_eval)


end
